theory Spec2Isabelle
  imports Complex_Main "HOL-Library.Log_Nat" "HOL-Library.Sublist"
begin

text \<open>
  A model of \<^verbatim>\<open>main.py\<close> of the brainrot generator, which turns a text into a vertical video
  with narration and paced subtitles, and proofs of ten properties of its specification,
  numbered C1 to C10. Each function of the source is a function here, under its own name;
  a function that prints returns the printed lines with its result, and a function that can
  raise returns an \<open>error + 'a\<close>. Times are binary64 floats with their rounding.
\<close>

section \<open>Python values used by \<^verbatim>\<open>main.py\<close>\<close>

subsection \<open>Strings\<close>

text \<open>
  A Python \<^verbatim>\<open>str\<close> is a sequence of Unicode code points, and \<^verbatim>\<open>len\<close>, slicing and
  \<^verbatim>\<open>split\<close> count code points. A string is therefore a list of code points (natural
  numbers); \<open>py_str\<close> turns an ASCII literal of the source into such a list.
\<close>

type_synonym codepoint = nat
type_synonym str = "codepoint list"

definition py_str :: "string \<Rightarrow> str" where
  "py_str s = map of_char s"

text \<open>
  \<^verbatim>\<open>str.split()\<close> without arguments separates at runs of whitespace and yields no empty
  token. CPython's whitespace code points are U+0009..U+000D, U+001C..U+0020, U+0085,
  U+00A0, U+1680, U+2000..U+200A, U+2028, U+2029, U+202F, U+205F and U+3000.
\<close>

definition isspace :: "codepoint \<Rightarrow> bool" where
  "isspace c \<longleftrightarrow>
     (9 \<le> c \<and> c \<le> 13) \<or> (28 \<le> c \<and> c \<le> 32) \<or> c = 133 \<or> c = 160 \<or> c = 5760 \<or>
     (8192 \<le> c \<and> c \<le> 8202) \<or> c = 8232 \<or> c = 8233 \<or> c = 8239 \<or> c = 8287 \<or> c = 12288"

text \<open>\<open>split_from cur s\<close> scans \<open>s\<close> with the token \<open>cur\<close> read so far.\<close>

fun split_from :: "str \<Rightarrow> str \<Rightarrow> str list" where
  "split_from cur [] = (if cur = [] then [] else [cur])"
| "split_from cur (c # cs) =
     (if isspace c then (if cur = [] then split_from [] cs else cur # split_from [] cs)
      else split_from (cur @ [c]) cs)"

definition str_split :: "str \<Rightarrow> str list" where
  "str_split s = split_from [] s"

text \<open>\<^verbatim>\<open>sep.join(ws)\<close>.\<close>

fun str_join :: "str \<Rightarrow> str list \<Rightarrow> str" where
  "str_join sep [] = []"
| "str_join sep [w] = w"
| "str_join sep (w # v # ws) = w @ sep @ str_join sep (v # ws)"

text \<open>
  \<^verbatim>\<open>str.lower()\<close>: CPython maps \<^verbatim>\<open>A\<close>..\<^verbatim>\<open>Z\<close> to \<^verbatim>\<open>a\<close>..\<^verbatim>\<open>z\<close> when the string is
  ASCII only, and otherwise applies the lower-casing of the Unicode character database,
  which is a table outside the repository: it is the parameter \<open>ucd_lower\<close>.
\<close>

definition ascii_lower :: "codepoint \<Rightarrow> codepoint" where
  "ascii_lower c = (if 65 \<le> c \<and> c \<le> 90 then c + 32 else c)"

definition str_lower :: "(str \<Rightarrow> str) \<Rightarrow> str \<Rightarrow> str" where
  "str_lower ucd_lower s = (if list_all (\<lambda>c. c < 128) s then map ascii_lower s else ucd_lower s)"

subsection \<open>Exceptions and dictionaries\<close>

text \<open>
  The exceptions the modelled statements can raise. \<^verbatim>\<open>exit(1)\<close> raises
  \<^verbatim>\<open>SystemExit\<close> with the exit status; \<^verbatim>\<open>d[k]\<close> raises \<^verbatim>\<open>KeyError\<close> on a missing
  key and \<^verbatim>\<open>xs[i]\<close> raises \<^verbatim>\<open>IndexError\<close> out of range; division raises
  \<^verbatim>\<open>ZeroDivisionError\<close> on a zero divisor; the conversion of an integer beyond the float range,
  or of an infinity to an integer, raises \<^verbatim>\<open>OverflowError\<close>; \<^verbatim>\<open>int(nan)\<close> raises
  \<^verbatim>\<open>ValueError\<close>.
\<close>

datatype error = KeyError | IndexError | ValueError | ZeroDivisionError | OverflowError | SystemExit int

text \<open>A dictionary literal is an association list with distinct keys.\<close>

definition dict_contains :: "('k \<times> 'v) list \<Rightarrow> 'k \<Rightarrow> bool" where
  "dict_contains d k \<longleftrightarrow> map_of d k \<noteq> None"

definition dict_get :: "('k \<times> 'v) list \<Rightarrow> 'k \<Rightarrow> 'v \<Rightarrow> 'v" where
  "dict_get d k dflt = (case map_of d k of None \<Rightarrow> dflt | Some v \<Rightarrow> v)"

definition dict_getitem :: "('k \<times> 'v) list \<Rightarrow> 'k \<Rightarrow> error + 'v" where
  "dict_getitem d k = (case map_of d k of None \<Rightarrow> Inl KeyError | Some v \<Rightarrow> Inr v)"

text \<open>A list comprehension whose element expression can raise stops at the first exception.\<close>

fun map_result :: "('a \<Rightarrow> error + 'b) \<Rightarrow> 'a list \<Rightarrow> error + 'b list" where
  "map_result f [] = Inr []"
| "map_result f (x # xs) =
     (case f x of
        Inl e \<Rightarrow> Inl e
      | Inr y \<Rightarrow> (case map_result f xs of Inl e \<Rightarrow> Inl e | Inr ys \<Rightarrow> Inr (y # ys)))"

section \<open>Text Sanitizer: \<^verbatim>\<open>filter_text\<close>\<close>

definition FAMILY_FRIENDLY_REPLACEMENTS :: "(str \<times> str) list" where
  "FAMILY_FRIENDLY_REPLACEMENTS =
     [(py_str ''damn'', py_str ''darn''),
      (py_str ''hell'', py_str ''heck''),
      (py_str ''shit'', py_str ''poop''),
      (py_str ''fuck'', py_str ''fudge''),
      (py_str ''bitch'', py_str ''witch''),
      (py_str ''whore'', py_str ''witch''),
      (py_str ''asshole'', py_str ''meanie''),
      (py_str ''bastard'', py_str ''rascal'')]"

text \<open>
  The element expression of the comprehension:
  \<^verbatim>\<open>R.get(word.lower(), word) if word.lower() not in R else R[word.lower()]\<close>.
\<close>

definition replace_word :: "(str \<Rightarrow> str) \<Rightarrow> str \<Rightarrow> error + str" where
  "replace_word ucd_lower word =
     (if \<not> dict_contains FAMILY_FRIENDLY_REPLACEMENTS (str_lower ucd_lower word)
      then Inr (dict_get FAMILY_FRIENDLY_REPLACEMENTS (str_lower ucd_lower word) word)
      else dict_getitem FAMILY_FRIENDLY_REPLACEMENTS (str_lower ucd_lower word))"

text \<open>
  \<^verbatim>\<open>filter_text\<close>. The call \<^verbatim>\<open>profanity.load_censor_words()\<close> loads a word list into
  the \<^verbatim>\<open>better_profanity\<close> module, which the function never consults: it has no part in
  the returned string.
\<close>

definition filter_text :: "(str \<Rightarrow> str) \<Rightarrow> str \<Rightarrow> error + str" where
  "filter_text ucd_lower txt =
     (case map_result (replace_word ucd_lower) (str_split txt) of
        Inl e \<Rightarrow> Inl e
      | Inr filtered_words \<Rightarrow> Inr (str_join (py_str '' '') filtered_words))"

section \<open>Floating-point numbers\<close>

text \<open>
  A Python \<^verbatim>\<open>float\<close> is an IEEE 754 binary64 number. A finite one is the real number
  it denotes, and every operation rounds its exact result to the nearest number with a
  53-bit significand, ties to the even significand. Numbers below \<open>2 powi - 1022\<close> are
  subnormal (a multiple of \<open>2 powi - 1074\<close>), and a result that rounds to \<open>2 ^ 1024\<close> or
  more is an infinity. The two zeros are one value here: they are equal under \<^verbatim>\<open>==\<close> and
  \<^verbatim>\<open><\<close>, and no operation of the program divides by a float zero without raising.
\<close>

datatype double = Fin real | PInf | NInf | NaN

text \<open>\<open>ilog2 x\<close> is the binary exponent of a positive \<open>x\<close>: \<open>2 powi ilog2 x \<le> x < 2 powi (ilog2 x + 1)\<close>.\<close>

definition ilog2 :: "real \<Rightarrow> int" where
  "ilog2 x = (if 1 \<le> x then bitlen \<lfloor>x\<rfloor> - 1 else - bitlen (\<lceil>1 / x\<rceil> - 1))"

definition round_half_even :: "real \<Rightarrow> int" where
  "round_half_even q =
     (let f = \<lfloor>q\<rfloor>; r = q - of_int f
      in if r < 1 / 2 then f else if 1 / 2 < r then f + 1 else if even f then f else f + 1)"

text \<open>The unit in the last place of the binade of \<open>x\<close>, not below the subnormal spacing.\<close>

definition ulp_exp :: "real \<Rightarrow> int" where
  "ulp_exp x = max (ilog2 \<bar>x\<bar> - 52) (- 1074)"

definition round_double :: "real \<Rightarrow> double" where
  "round_double x =
     (if x = 0 then Fin 0
      else let y = of_int (round_half_even (\<bar>x\<bar> / 2 powi ulp_exp x)) * 2 powi ulp_exp x
           in if 2 ^ 1024 \<le> y then (if 0 < x then PInf else NInf)
              else Fin (if 0 < x then y else - y))"

text \<open>
  \<^verbatim>\<open>float(n)\<close> for an integer \<open>n \<ge> 0\<close>, as the mixed operations \<^verbatim>\<open>float / int\<close> and
  \<^verbatim>\<open>int * float\<close> apply it to their integer operand: correctly rounded, and
  \<^verbatim>\<open>OverflowError\<close> beyond the float range.
\<close>

definition float_of_nat :: "nat \<Rightarrow> error + double" where
  "float_of_nat n = (case round_double (of_nat n) of Fin x \<Rightarrow> Inr (Fin x) | _ \<Rightarrow> Inl OverflowError)"

definition inf_of_sign :: "real \<Rightarrow> double" where
  "inf_of_sign s = (if 0 < s then PInf else if s < 0 then NInf else NaN)"

fun float_mul :: "double \<Rightarrow> double \<Rightarrow> double" where
  "float_mul (Fin a) (Fin b) = round_double (a * b)"
| "float_mul NaN y = NaN"
| "float_mul x NaN = NaN"
| "float_mul (Fin a) PInf = inf_of_sign a"
| "float_mul (Fin a) NInf = inf_of_sign (- a)"
| "float_mul PInf (Fin b) = inf_of_sign b"
| "float_mul NInf (Fin b) = inf_of_sign (- b)"
| "float_mul PInf PInf = PInf"
| "float_mul PInf NInf = NInf"
| "float_mul NInf PInf = NInf"
| "float_mul NInf NInf = PInf"

text \<open>\<^verbatim>\<open>x / y\<close> on floats raises \<^verbatim>\<open>ZeroDivisionError\<close> when \<open>y\<close> is zero.\<close>

fun float_div :: "double \<Rightarrow> double \<Rightarrow> error + double" where
  "float_div (Fin a) (Fin b) = (if b = 0 then Inl ZeroDivisionError else Inr (round_double (a / b)))"
| "float_div NaN (Fin b) = (if b = 0 then Inl ZeroDivisionError else Inr NaN)"
| "float_div PInf (Fin b) = (if b = 0 then Inl ZeroDivisionError else Inr (inf_of_sign b))"
| "float_div NInf (Fin b) = (if b = 0 then Inl ZeroDivisionError else Inr (inf_of_sign (- b)))"
| "float_div x NaN = Inr NaN"
| "float_div (Fin a) y = Inr (Fin 0)"
| "float_div x y = Inr NaN"

fun float_sub :: "double \<Rightarrow> double \<Rightarrow> double" where
  "float_sub (Fin a) (Fin b) = round_double (a - b)"
| "float_sub NaN y = NaN"
| "float_sub x NaN = NaN"
| "float_sub PInf PInf = NaN"
| "float_sub NInf NInf = NaN"
| "float_sub PInf y = PInf"
| "float_sub NInf y = NInf"
| "float_sub (Fin a) PInf = NInf"
| "float_sub (Fin a) NInf = PInf"

fun float_add :: "double \<Rightarrow> double \<Rightarrow> double" where
  "float_add (Fin a) (Fin b) = round_double (a + b)"
| "float_add NaN y = NaN"
| "float_add x NaN = NaN"
| "float_add PInf NInf = NaN"
| "float_add NInf PInf = NaN"
| "float_add PInf y = PInf"
| "float_add NInf y = NInf"
| "float_add (Fin a) PInf = PInf"
| "float_add (Fin a) NInf = NInf"

text \<open>
  \<^verbatim>\<open>a / b\<close> on non-negative integers is the correctly rounded quotient, and \<^verbatim>\<open>int(x)\<close>
  truncates a float towards zero.
\<close>

definition int_truediv :: "nat \<Rightarrow> nat \<Rightarrow> error + double" where
  "int_truediv a b =
     (if b = 0 then Inl ZeroDivisionError
      else (case round_double (of_nat a / of_nat b) of Fin x \<Rightarrow> Inr (Fin x) | _ \<Rightarrow> Inl OverflowError))"

definition int_of_float :: "double \<Rightarrow> error + int" where
  "int_of_float x =
     (case x of
        Fin r \<Rightarrow> Inr (if 0 \<le> r then \<lfloor>r\<rfloor> else \<lceil>r\<rceil>)
      | NaN \<Rightarrow> Inl ValueError
      | _ \<Rightarrow> Inl OverflowError)"

text \<open>\<^verbatim>\<open>x < y\<close> and \<^verbatim>\<open>x == y\<close>: false whenever an operand is not a number.\<close>

fun float_lt :: "double \<Rightarrow> double \<Rightarrow> bool" where
  "float_lt (Fin a) (Fin b) = (a < b)"
| "float_lt NaN y = False"
| "float_lt x NaN = False"
| "float_lt x NInf = False"
| "float_lt PInf y = False"
| "float_lt NInf y = True"
| "float_lt (Fin a) PInf = True"

definition float_eq :: "double \<Rightarrow> double \<Rightarrow> bool" where
  "float_eq x y \<longleftrightarrow> x = y \<and> x \<noteq> NaN"

text \<open>\<^verbatim>\<open>min(x, y)\<close> keeps its first argument unless the second is smaller.\<close>

definition py_min :: "double \<Rightarrow> double \<Rightarrow> double" where
  "py_min x y = (if float_lt y x then y else x)"

section \<open>Subtitle Pacer: \<^verbatim>\<open>generate_subtitle_timestamps\<close>\<close>

text \<open>A subtitle part is a dictionary with the keys \<^verbatim>\<open>text\<close>, \<^verbatim>\<open>start_time\<close> and \<^verbatim>\<open>end_time\<close>.\<close>

record segment =
  text' :: str
  start_time :: double
  end_time :: double

text \<open>\<^verbatim>\<open>range(i, stop, step)\<close> for a positive step, and the slice \<^verbatim>\<open>xs[i:j]\<close>.\<close>

function py_range :: "nat \<Rightarrow> nat \<Rightarrow> nat \<Rightarrow> nat list" where
  "py_range i stop step = (if 0 < step \<and> i < stop then i # py_range (i + step) stop step else [])"
  by pat_completeness auto
termination
  by (relation "measure (\<lambda>(i, stop, step). stop - i)") auto

definition slice :: "'a list \<Rightarrow> nat \<Rightarrow> nat \<Rightarrow> 'a list" where
  "slice xs i j = take (j - i) (drop i xs)"

text \<open>\<^verbatim>\<open>[words[i:i+2] for i in range(0, len(words), 2)]\<close>\<close>

definition word_groups_of :: "str list \<Rightarrow> str list list" where
  "word_groups_of words = map (\<lambda>i. slice words i (i + 2)) (py_range 0 (length words) 2)"

text \<open>
  The loop over \<^verbatim>\<open>enumerate(word_groups)\<close> from index \<open>i\<close> on; the parts it appends are
  returned in the order of the appends.
\<close>

fun subtitle_loop :: "double \<Rightarrow> double \<Rightarrow> nat \<Rightarrow> str list list \<Rightarrow> error + segment list" where
  "subtitle_loop segment_duration audio_duration i [] = Inr []"
| "subtitle_loop segment_duration audio_duration i (g # gs) =
     (case float_of_nat i of
        Inl e \<Rightarrow> Inl e
      | Inr fi \<Rightarrow>
          (case float_of_nat (i + 1) of
             Inl e \<Rightarrow> Inl e
           | Inr fi1 \<Rightarrow>
               (case subtitle_loop segment_duration audio_duration (i + 1) gs of
                  Inl e \<Rightarrow> Inl e
                | Inr parts \<Rightarrow>
                    Inr (\<lparr>text' = str_join (py_str '' '') g,
                          start_time = float_mul fi segment_duration,
                          end_time = py_min (float_mul fi1 segment_duration) audio_duration\<rparr>
                         # parts))))"

text \<open>The result is the printed lines together with the returned list or the exception raised.\<close>

definition generate_subtitle_timestamps :: "str \<Rightarrow> double \<Rightarrow> str list \<times> (error + segment list)" where
  "generate_subtitle_timestamps txt audio_duration =
     (let words = str_split txt
      in if words = [] then ([py_str ''Error: Input text is empty.''], Inr [])
         else
           (case float_of_nat (length (word_groups_of words)) of
              Inl e \<Rightarrow> ([], Inl e)
            | Inr n \<Rightarrow>
                (case float_div audio_duration n of
                   Inl e \<Rightarrow> ([], Inl e)
                 | Inr segment_duration \<Rightarrow>
                     ([], subtitle_loop segment_duration audio_duration 0 (word_groups_of words)))))"

section \<open>Background Selector: \<^verbatim>\<open>pick_random_video\<close>\<close>

text \<open>
  \<^verbatim>\<open>folder.glob("*.mp4")\<close> yields \<open>folder / name\<close> for every entry of the folder whose name
  matches the pattern. A folder is the list of its entry names, in the order the directory
  is enumerated. The matcher covers the pattern characters \<^verbatim>\<open>*\<close> (any run of characters),
  \<^verbatim>\<open>?\<close> (one character) and literals, compared exactly as on a POSIX file system (on
  Windows the comparison ignores case).
\<close>

fun fnmatch :: "str \<Rightarrow> str \<Rightarrow> bool" where
  "fnmatch [] name = (name = [])"
| "fnmatch (p # ps) name =
     (if p = 42 then list_ex (\<lambda>k. fnmatch ps (drop k name)) [0..<length name + 1]
      else (case name of [] \<Rightarrow> False | c # cs \<Rightarrow> (p = 63 \<or> p = c) \<and> fnmatch ps cs))"

definition glob :: "str list \<Rightarrow> str \<Rightarrow> str list" where
  "glob entries pattern = filter (fnmatch pattern) entries"

text \<open>
  \<^verbatim>\<open>random.choice(seq)\<close> is \<^verbatim>\<open>seq[self._randbelow(len(seq))]\<close>. The random source is the
  parameter \<open>randbelow\<close>; the generator's contract is \<open>randbelow n < n\<close> for \<open>n > 0\<close>.
\<close>

definition list_getitem :: "'a list \<Rightarrow> nat \<Rightarrow> error + 'a" where
  "list_getitem xs i = (if i < length xs then Inr (xs ! i) else Inl IndexError)"

definition random_choice :: "(nat \<Rightarrow> nat) \<Rightarrow> 'a list \<Rightarrow> error + 'a" where
  "random_choice randbelow xs = list_getitem xs (randbelow (length xs))"

definition pick_random_video :: "str list \<Rightarrow> (nat \<Rightarrow> nat) \<Rightarrow> str list \<times> (error + str)" where
  "pick_random_video folder randbelow =
     (let video_files = glob folder (py_str ''*.mp4'')
      in if video_files = [] then ([py_str ''No videos found in background folder!''], Inl (SystemExit 1))
         else ([], random_choice randbelow video_files))"

section \<open>Frame Transformer and Composer: \<^verbatim>\<open>create_video_with_subtitles\<close>\<close>

subsection \<open>The two moviepy effects the source calls\<close>

text \<open>
  \<^verbatim>\<open>resize\<close> and \<^verbatim>\<open>crop\<close> belong to the moviepy library (version 1.x, which provides
  \<^verbatim>\<open>moviepy.editor\<close>), not to the repository. They are written here as the library defines
  them, on the size \<open>(width, height)\<close> of a clip, which is all the claims speak about.

  \<^verbatim>\<open>clip.resize(height=h)\<close> computes \<^verbatim>\<open>newsize = [w * height / h, height]\<close> and resizes every
  frame to \<^verbatim>\<open>int(newsize[0])\<close> by \<^verbatim>\<open>int(newsize[1])\<close>. The resizer refuses a target whose
  width or height is not positive with \<^verbatim>\<open>ValueError\<close>, at the call, since the size of the new
  clip is read off its first frame.
\<close>

definition resize_height :: "nat \<times> nat \<Rightarrow> nat \<Rightarrow> error + nat \<times> nat" where
  "resize_height sz height =
     (case int_truediv (fst sz * height) (snd sz) of
        Inl e \<Rightarrow> Inl e
      | Inr nw \<Rightarrow>
          (case int_of_float nw of
             Inl e \<Rightarrow> Inl e
           | Inr lx \<Rightarrow> if lx \<le> 0 \<or> height = 0 then Inl ValueError else Inr (nat lx, height)))"

text \<open>
  \<^verbatim>\<open>crop\<close> with \<^verbatim>\<open>x_center\<close>, \<^verbatim>\<open>y_center\<close>, \<^verbatim>\<open>width\<close> and \<^verbatim>\<open>height\<close> sets
  \<^verbatim>\<open>x1, x2 = x_center - width / 2, x_center + width / 2\<close> when \<^verbatim>\<open>x_center\<close> is not zero,
  replaces a zero \<^verbatim>\<open>x1\<close> by 0 and a zero \<^verbatim>\<open>x2\<close> by the clip's width, and slices each frame:
  \<^verbatim>\<open>pic[int(y1):int(y2), int(x1):int(x2)]\<close>. A slice bound below zero counts from the end,
  and bounds are clipped to the extent: a slice never holds more than the array has.
\<close>

definition slice_bound :: "nat \<Rightarrow> int \<Rightarrow> nat" where
  "slice_bound n i = (if i < 0 then nat (max 0 (int n + i)) else min n (nat i))"

definition slice_len :: "nat \<Rightarrow> int \<Rightarrow> int \<Rightarrow> nat" where
  "slice_len n start stop = slice_bound n stop - slice_bound n start"

definition crop_axis :: "nat \<Rightarrow> double \<Rightarrow> nat \<Rightarrow> error + nat" where
  "crop_axis n center extent =
     (if center = Fin 0 then Inr (slice_len n 0 (int n))
      else
        (case int_truediv extent 2 of
           Inl e \<Rightarrow> Inl e
         | Inr half \<Rightarrow>
             (case int_of_float (float_sub center half) of
                Inl e \<Rightarrow> Inl e
              | Inr start \<Rightarrow>
                  if float_add center half = Fin 0 then Inr (slice_len n start (int n))
                  else
                    (case int_of_float (float_add center half) of
                       Inl e \<Rightarrow> Inl e
                     | Inr stop \<Rightarrow> Inr (slice_len n start stop)))))"

definition crop :: "nat \<times> nat \<Rightarrow> double \<Rightarrow> double \<Rightarrow> nat \<Rightarrow> nat \<Rightarrow> error + nat \<times> nat" where
  "crop sz x_center y_center width height =
     (case crop_axis (snd sz) y_center height of
        Inl e \<Rightarrow> Inl e
      | Inr rows \<Rightarrow>
          (case crop_axis (fst sz) x_center width of Inl e \<Rightarrow> Inl e | Inr cols \<Rightarrow> Inr (cols, rows)))"

subsection \<open>The frame transformation of the source\<close>

text \<open>
  Lines 136 to 138: \<^verbatim>\<open>video.resize(height=target_height)\<close>, then
  \<^verbatim>\<open>video.crop(x_center=video.size[0] / 2, y_center=video.size[1] / 2, width=target_width,
  height=target_height)\<close>, on the natural size of the decoded video.
\<close>

definition frame_transform :: "nat \<times> nat \<Rightarrow> error + nat \<times> nat" where
  "frame_transform video_size =
     (let target_width = 1080; target_height = 1920
      in case resize_height video_size target_height of
           Inl e \<Rightarrow> Inl e
         | Inr sz \<Rightarrow>
             (case int_truediv (fst sz) 2 of
                Inl e \<Rightarrow> Inl e
              | Inr x_center \<Rightarrow>
                  (case int_truediv (snd sz) 2 of
                     Inl e \<Rightarrow> Inl e
                   | Inr y_center \<Rightarrow> crop sz x_center y_center target_width target_height)))"

subsection \<open>The composition\<close>

text \<open>
  The clips are recorded as the source builds them: the base video with its size and
  duration, one text clip per subtitle part with the arguments of \<^verbatim>\<open>TextClip\<close> and the
  calls chained on it, and the job handed to \<^verbatim>\<open>write_videofile\<close>. Decoding, text
  rendering and encoding are moviepy's work. The reported audio duration and the natural
  size of the video are inputs.
\<close>

record video_clip =
  video_path :: str
  clip_size :: "nat \<times> nat"
  clip_duration :: double

record text_clip =
  caption :: str
  font :: str
  fontsize :: nat
  color :: str
  stroke_color :: str
  stroke_width :: nat
  align :: str
  method' :: str
  caption_width :: nat
  position :: "str \<times> str"
  clip_start :: double
  text_duration :: double
  fadein :: double
  fadeout :: double

datatype layer = VideoLayer video_clip | TextLayer text_clip

record render_job =
  layers :: "layer list"
  audio_path :: str
  output_path :: str
  codec :: str
  fps :: nat

definition subtitle_clip :: "nat \<Rightarrow> segment \<Rightarrow> text_clip" where
  "subtitle_clip video_width subtitle =
     \<lparr>caption = text' subtitle, font = py_str ''Verdana'', fontsize = 100, color = py_str ''white'',
      stroke_color = py_str ''black'', stroke_width = 2, align = py_str ''center'',
      method' = py_str ''caption'', caption_width = video_width,
      position = (py_str ''center'', py_str ''center''), clip_start = start_time subtitle,
      text_duration = float_sub (end_time subtitle) (start_time subtitle),
      fadein = Fin 0, fadeout = Fin 0\<rparr>"

definition create_video_with_subtitles ::
  "str \<Rightarrow> double \<Rightarrow> str \<Rightarrow> nat \<times> nat \<Rightarrow> str \<Rightarrow> str \<Rightarrow> str list \<times> (error + render_job)" where
  "create_video_with_subtitles audio_file audio_duration video_file video_size output_file txt =
     (case frame_transform video_size of
        Inl e \<Rightarrow> ([], Inl e)
      | Inr sz \<Rightarrow>
          (let video = \<lparr>video_path = video_file, clip_size = sz, clip_duration = audio_duration\<rparr>;
               (printed, subtitle_parts) = generate_subtitle_timestamps txt audio_duration
           in case subtitle_parts of
                Inl e \<Rightarrow> (printed, Inl e)
              | Inr parts \<Rightarrow>
                  (printed @ [py_str ''Output saved: '' @ output_file],
                   Inr \<lparr>layers = VideoLayer video # map (\<lambda>subtitle. TextLayer (subtitle_clip (fst sz) subtitle)) parts,
                        audio_path = audio_file, output_path = output_file,
                        codec = py_str ''libx264'', fps = 60\<rparr>)))"

section \<open>Notions used in the statements and proofs\<close>

text \<open>A token: non-empty and free of whitespace, as \<^verbatim>\<open>split\<close> produces them.\<close>

definition is_token :: "str \<Rightarrow> bool" where
  "is_token w \<longleftrightarrow> w \<noteq> [] \<and> list_all (\<lambda>c. \<not> isspace c) w"

text \<open>What \<open>replace_word\<close> returns, once its guarded subscript is known not to raise.\<close>

definition substitute :: "(str \<Rightarrow> str) \<Rightarrow> str \<Rightarrow> str" where
  "substitute ucd_lower w =
     (case map_of FAMILY_FRIENDLY_REPLACEMENTS (str_lower ucd_lower w) of None \<Rightarrow> w | Some v \<Rightarrow> v)"

definition replacement_values :: "str list" where
  "replacement_values = map snd FAMILY_FRIENDLY_REPLACEMENTS"

text \<open>The rounded magnitude of \<open>round_double\<close>, before the overflow test.\<close>

definition rnd :: "real \<Rightarrow> real" where
  "rnd x = of_int (round_half_even (\<bar>x\<bar> / 2 powi ulp_exp x)) * 2 powi ulp_exp x"

text \<open>The subtitle part the loop body appends at index \<open>i\<close>, once \<open>i\<close> and \<open>i + 1\<close> convert exactly.\<close>

definition mk_part :: "double \<Rightarrow> double \<Rightarrow> nat \<Rightarrow> str list \<Rightarrow> segment" where
  "mk_part sd d i g =
     \<lparr>text' = str_join (py_str '' '') g,
      start_time = float_mul (Fin (of_nat i)) sd,
      end_time = py_min (float_mul (Fin (of_nat (i + 1))) sd) d\<rparr>"

text \<open>The text of the specification's example.\<close>

definition example_text :: str where
  "example_text = py_str ''this is a test message''"

section \<open>Properties of the Text Sanitizer\<close>

lemma split_from_tokens:
  "list_all (\<lambda>c. \<not> isspace c) cur \<Longrightarrow> list_all is_token (split_from cur s)"
  by (induction s arbitrary: cur) (auto simp: is_token_def)

lemma str_split_tokens: "list_all is_token (str_split s)"
  by (simp add: str_split_def split_from_tokens)

lemma split_from_append_token:
  "list_all (\<lambda>c. \<not> isspace c) w \<Longrightarrow> split_from cur (w @ s) = split_from (cur @ w) s"
  by (induction w arbitrary: cur) auto

lemma isspace_32: "isspace 32"
  by (simp add: isspace_def)

lemma py_str_space: "py_str '' '' = [32]"
  by (simp add: py_str_def)

lemma split_from_token: "is_token w \<Longrightarrow> split_from [] w = [w]"
  using split_from_append_token[of w "[]" "[]"] by (simp add: is_token_def)

lemma split_from_join:
  "list_all is_token ws \<Longrightarrow> split_from [] (str_join [32] ws) = ws"
proof (induction ws rule: induct_list012)
  case 1 then show ?case by simp
next
  case (2 w)
  then show ?case by (simp add: split_from_token)
next
  case (3 w v ws)
  then have w: "w \<noteq> []" "list_all (\<lambda>c. \<not> isspace c) w" by (auto simp: is_token_def)
  have "split_from [] (w @ [32] @ str_join [32] (v # ws)) = split_from w ([32] @ str_join [32] (v # ws))"
    using split_from_append_token[OF w(2), of "[]"] by simp
  also have "\<dots> = w # split_from [] (str_join [32] (v # ws))"
    using w(1) by (simp add: isspace_32)
  finally show ?case using 3 by simp
qed

text \<open>Splitting what \<^verbatim>\<open>' '.join\<close> built from whitespace-free, non-empty words gives the words back.\<close>

lemma str_split_join: "list_all is_token ws \<Longrightarrow> str_split (str_join (py_str '' '') ws) = ws"
  by (simp add: str_split_def py_str_space split_from_join)

lemma map_result_total: "(\<And>x. f x = Inr (g x)) \<Longrightarrow> map_result f xs = Inr (map g xs)"
  by (induction xs) auto

text \<open>The guarded subscript never raises \<^verbatim>\<open>KeyError\<close>.\<close>

lemma replace_word_eq: "replace_word u w = Inr (substitute u w)"
  by (auto simp: replace_word_def substitute_def dict_contains_def dict_get_def dict_getitem_def)

lemma filter_text_eq:
  "filter_text u txt = Inr (str_join (py_str '' '') (map (substitute u) (str_split txt)))"
  by (simp add: filter_text_def map_result_total[of "replace_word u" "substitute u"] replace_word_eq)

lemma table_values:
  "map_of FAMILY_FRIENDLY_REPLACEMENTS k = Some v \<Longrightarrow> v \<in> set replacement_values"
  unfolding replacement_values_def by (metis map_of_SomeD set_zip_rightD zip_map_fst_snd)

lemma values_token: "list_all is_token replacement_values"
  by (simp add: replacement_values_def FAMILY_FRIENDLY_REPLACEMENTS_def is_token_def py_str_def isspace_def)

lemma values_lower: "list_all (\<lambda>v. str_lower u v = v) replacement_values"
  by (simp add: replacement_values_def FAMILY_FRIENDLY_REPLACEMENTS_def py_str_def str_lower_def ascii_lower_def)

lemma values_not_keys: "list_all (\<lambda>v. map_of FAMILY_FRIENDLY_REPLACEMENTS v = None) replacement_values"
  by (simp add: replacement_values_def FAMILY_FRIENDLY_REPLACEMENTS_def py_str_def)

lemma value_props:
  assumes "map_of FAMILY_FRIENDLY_REPLACEMENTS k = Some v"
  shows "is_token v" and "str_lower u v = v" and "map_of FAMILY_FRIENDLY_REPLACEMENTS v = None"
  using table_values[OF assms] values_token values_lower[of u] values_not_keys
  unfolding list_all_iff by blast+

lemma substitute_token: "is_token w \<Longrightarrow> is_token (substitute u w)"
  by (auto simp: substitute_def value_props(1) split: option.splits)

lemma substitute_idem: "substitute u (substitute u w) = substitute u w"
  by (auto simp: substitute_def value_props split: option.splits)

lemma substituted_tokens: "list_all is_token (map (substitute u) (str_split x))"
  using str_split_tokens[of x] by (simp add: list_all_iff substitute_token)

lemmas eval_str = py_str_def str_split_def isspace_def str_lower_def ascii_lower_def
  FAMILY_FRIENDLY_REPLACEMENTS_def replace_word_def filter_text_def dict_contains_def
  dict_get_def dict_getitem_def

text \<open>
  C6. The Sanitizer is idempotent: for every input string \<open>x\<close>, \<^verbatim>\<open>filter_text(x)\<close> returns a
  string \<open>y\<close> (it never raises), and \<^verbatim>\<open>filter_text(y)\<close> returns \<open>y\<close> again. This holds for
  every lower-casing of non-ASCII strings.
\<close>

theorem filter_text_idempotent:
  "\<exists>y. filter_text ucd_lower x = Inr y \<and> filter_text ucd_lower y = Inr y"
proof -
  let ?ws = "map (substitute ucd_lower) (str_split x)"
  have "filter_text ucd_lower (str_join (py_str '' '') ?ws) = Inr (str_join (py_str '' '') ?ws)"
    by (simp add: filter_text_eq str_split_join[OF substituted_tokens] substitute_idem comp_def)
  then show ?thesis by (simp add: filter_text_eq)
qed

theorem filter_text_idempotent_witness:
  "filter_text (\<lambda>s. s) (py_str ''What the  HELL is this'') = Inr (py_str ''What the heck is this'') \<and>
   filter_text (\<lambda>s. s) (py_str ''What the heck is this'') = Inr (py_str ''What the heck is this'')"
  using filter_text_idempotent[of "\<lambda>s. s" "py_str ''What the  HELL is this''"]
  by (simp add: eval_str)

text \<open>
  C7. For every input string the Sanitizer preserves the whitespace-token count: the output
  has exactly as many tokens as the input, the i-th output token is what the element
  expression of the comprehension returns for the i-th input token (no token is merged or
  split), and every token whose lowercase form is not a key of the replacement table is
  unchanged.
\<close>

theorem filter_text_preserves_tokens:
  "\<exists>y. filter_text ucd_lower x = Inr y \<and>
       length (str_split y) = length (str_split x) \<and>
       map Inr (str_split y) = map (replace_word ucd_lower) (str_split x) \<and>
       (\<forall>i < length (str_split x).
          \<not> dict_contains FAMILY_FRIENDLY_REPLACEMENTS (str_lower ucd_lower (str_split x ! i)) \<longrightarrow>
          str_split y ! i = str_split x ! i)"
proof -
  let ?ws = "map (substitute ucd_lower) (str_split x)"
  let ?y = "str_join (py_str '' '') ?ws"
  have split_y: "str_split ?y = ?ws"
    by (rule str_split_join[OF substituted_tokens])
  have same: "str_split ?y ! i = str_split x ! i"
    if "i < length (str_split x)"
      and "\<not> dict_contains FAMILY_FRIENDLY_REPLACEMENTS (str_lower ucd_lower (str_split x ! i))" for i
    using that by (simp add: split_y substitute_def dict_contains_def)
  have "filter_text ucd_lower x = Inr ?y"
    by (rule filter_text_eq)
  moreover have "length (str_split ?y) = length (str_split x)"
    by (simp add: split_y)
  moreover have "map Inr (str_split ?y) = map (replace_word ucd_lower) (str_split x)"
    by (simp add: split_y replace_word_eq)
  ultimately show ?thesis using same by blast
qed

theorem filter_text_preserves_tokens_witness:
  "filter_text (\<lambda>s. s) (py_str ''What the  HELL is this'') = Inr (py_str ''What the heck is this'') \<and>
   length (str_split (py_str ''What the heck is this'')) = 5 \<and>
   length (str_split (py_str ''What the  HELL is this'')) = 5 \<and>
   \<not> dict_contains FAMILY_FRIENDLY_REPLACEMENTS
       (str_lower (\<lambda>s. s) (str_split (py_str ''What the  HELL is this'') ! 0)) \<and>
   str_split (py_str ''What the heck is this'') ! 0 = py_str ''What'' \<and>
   str_split (py_str ''What the  HELL is this'') ! 0 = py_str ''What''"
  using filter_text_preserves_tokens[of "\<lambda>s. s" "py_str ''What the  HELL is this''"]
  by (simp add: eval_str)

section \<open>Properties of the word groups\<close>

lemma py_range_shift2: "py_range (i + 2) (n + 2) 2 = map (\<lambda>j. j + 2) (py_range i n 2)"
proof (induction i n "2::nat" rule: py_range.induct)
  case (1 i stop)
  show ?case
  proof (cases "i < stop")
    case True
    then have "py_range (i + 2 + 2) (stop + 2) 2 = map (\<lambda>j. j + 2) (py_range (i + 2) stop 2)"
      using 1 by simp
    then show ?thesis using True
      by (subst py_range.simps, subst (2) py_range.simps) simp
  next
    case False
    then show ?thesis by (subst py_range.simps, subst (2) py_range.simps) simp
  qed
qed

lemma word_groups_of_Nil: "word_groups_of [] = []"
  by (simp add: word_groups_of_def)

lemma word_groups_of_single: "word_groups_of [w] = [[w]]"
  by (simp add: word_groups_of_def slice_def)

lemma word_groups_of_pair: "word_groups_of (w # v # ws) = [w, v] # word_groups_of ws"
proof -
  have "py_range 0 (length (w # v # ws)) 2 = 0 # py_range (0 + 2) (length ws + 2) 2"
    by (subst py_range.simps) simp
  also have "\<dots> = 0 # map (\<lambda>j. j + 2) (py_range 0 (length ws) 2)"
    by (simp only: py_range_shift2)
  finally show ?thesis
    by (simp add: word_groups_of_def slice_def comp_def)
qed

lemmas word_groups_of_simps = word_groups_of_Nil word_groups_of_single word_groups_of_pair

lemma length_word_groups_of: "length (word_groups_of ws) = (length ws + 1) div 2"
  by (induction ws rule: induct_list012) (simp_all add: word_groups_of_simps)

lemma concat_word_groups_of: "concat (word_groups_of ws) = ws"
  by (induction ws rule: induct_list012) (simp_all add: word_groups_of_simps)

lemma word_groups_of_nth:
  "i < length (word_groups_of ws) \<Longrightarrow> word_groups_of ws ! i = take 2 (drop (2 * i) ws)"
proof (induction ws arbitrary: i rule: induct_list012)
  case 1 then show ?case by (simp add: word_groups_of_simps)
next
  case (2 w) then show ?case by (simp add: word_groups_of_simps)
next
  case (3 w v ws)
  then show ?case by (cases i) (simp_all add: word_groups_of_simps)
qed

section \<open>Properties of rounding\<close>

lemma pow2_less_D: "(2::real) powi a < 2 powi b \<Longrightarrow> a < b"
  using power_int_increasing[of b a "2::real"] by (cases "a < b") auto

lemma pow2_pos: "0 < (2::real) powi e"
  by (simp add: zero_less_power_int)

lemma ilog2_bounds:
  assumes "0 < x"
  shows "2 powi ilog2 x \<le> x" and "x < 2 powi (ilog2 x + 1)"
proof -
  have "2 powi ilog2 x \<le> x \<and> x < 2 powi (ilog2 x + 1)"
  proof (cases "1 \<le> x")
    case True
    define n where "n = \<lfloor>x\<rfloor>"
    have n: "0 < n" "of_int n \<le> x" "x < of_int n + 1"
      unfolding n_def using True by linarith+
    have bl: "1 \<le> bitlen n" using n(1) by (simp add: bitlen_alt_def)
    from bitlen_bounds[OF n(1)] have b: "2 ^ nat (bitlen n - 1) \<le> n" "n < 2 ^ nat (bitlen n)"
      by auto
    have e: "ilog2 x = bitlen n - 1" using True by (simp add: ilog2_def n_def)
    have "(2::real) powi (bitlen n - 1) = of_int (2 ^ nat (bitlen n - 1))"
      using bl by (simp add: power_int_nonneg_exp)
    also have "\<dots> \<le> of_int n" using b(1) by (simp only: of_int_le_iff)
    finally have lo: "2 powi ilog2 x \<le> x" using n(2) e by simp
    have "n + 1 \<le> 2 ^ nat (bitlen n)" using b(2) by simp
    then have "(of_int (n + 1)::real) \<le> of_int (2 ^ nat (bitlen n))" by (simp only: of_int_le_iff)
    also have "\<dots> = 2 powi (bitlen n)" using bl by (simp add: power_int_nonneg_exp)
    finally have "x < 2 powi (ilog2 x + 1)" using n(3) e by simp
    with lo show ?thesis by simp
  next
    case False
    define m where "m = \<lceil>1 / x\<rceil> - 1"
    have x1: "1 < 1 / x" using False assms by simp
    have m: "0 < m" "of_int m < 1 / x" "1 / x \<le> of_int m + 1"
      unfolding m_def using x1 by linarith+
    have bl: "1 \<le> bitlen m" using m(1) by (simp add: bitlen_alt_def)
    from bitlen_bounds[OF m(1)] have b: "2 ^ nat (bitlen m - 1) \<le> m" "m < 2 ^ nat (bitlen m)"
      by auto
    have e: "ilog2 x = - bitlen m" using False by (simp add: ilog2_def m_def)
    have "m + 1 \<le> 2 ^ nat (bitlen m)" using b(2) by simp
    then have "(of_int (m + 1)::real) \<le> of_int (2 ^ nat (bitlen m))" by (simp only: of_int_le_iff)
    also have "\<dots> = 2 powi (bitlen m)" using bl by (simp add: power_int_nonneg_exp)
    finally have "1 / x \<le> 2 powi bitlen m" using m(3) by simp
    then have lo: "2 powi ilog2 x \<le> x"
      using assms by (simp add: e power_int_minus field_simps)
    have "(2::real) powi (bitlen m - 1) = of_int (2 ^ nat (bitlen m - 1))"
      using bl by (simp add: power_int_nonneg_exp)
    also have "\<dots> \<le> of_int m" using b(1) by (simp only: of_int_le_iff)
    finally have "2 powi (bitlen m - 1) < 1 / x" using m(2) by simp
    then have "x < 1 / 2 powi (bitlen m - 1)"
      using assms by (simp add: field_simps)
    also have "\<dots> = 2 powi (ilog2 x + 1)"
      by (simp add: e power_int_minus_divide[symmetric])
    finally show ?thesis using lo by simp
  qed
  then show "2 powi ilog2 x \<le> x" and "x < 2 powi (ilog2 x + 1)" by simp_all
qed

lemma ilog2_mono: "0 < x \<Longrightarrow> x \<le> y \<Longrightarrow> ilog2 x \<le> ilog2 y"
proof -
  assume a: "0 < x" "x \<le> y"
  have "(2::real) powi ilog2 x < 2 powi (ilog2 y + 1)"
    using ilog2_bounds(1)[OF a(1)] ilog2_bounds(2)[of y] a by linarith
  then have "ilog2 x < ilog2 y + 1"
    by (rule pow2_less_D)
  then show ?thesis by simp
qed

lemma ilog2_le: "0 < x \<Longrightarrow> x < 2 powi n \<Longrightarrow> ilog2 x < n"
proof -
  assume a: "0 < x" "x < 2 powi n"
  have "(2::real) powi ilog2 x < 2 powi n"
    using ilog2_bounds(1)[OF a(1)] a(2) by linarith
  then show ?thesis by (rule pow2_less_D)
qed

lemma ilog2_ge: "0 < x \<Longrightarrow> 2 powi n \<le> x \<Longrightarrow> n \<le> ilog2 x"
proof -
  assume a: "0 < x" "2 powi n \<le> x"
  have "(2::real) powi n < 2 powi (ilog2 x + 1)"
    using ilog2_bounds(2)[OF a(1)] a(2) by linarith
  then have "n < ilog2 x + 1" by (rule pow2_less_D)
  then show ?thesis by simp
qed

lemma rhe_of_int: "round_half_even (of_int m) = m"
  by (simp add: round_half_even_def)

lemma rhe_cases: "round_half_even q = \<lfloor>q\<rfloor> \<or> round_half_even q = \<lfloor>q\<rfloor> + 1"
  by (simp add: round_half_even_def Let_def)

lemma rhe_upper: "of_int (round_half_even q) \<le> q + 1 / 2"
  unfolding round_half_even_def Let_def by (auto; linarith)

lemma rhe_lower: "q - 1 / 2 \<le> of_int (round_half_even q)"
  unfolding round_half_even_def Let_def by (auto; linarith)

lemma rhe_le: "q \<le> of_int m \<Longrightarrow> round_half_even q \<le> m"
proof -
  assume a: "q \<le> of_int m"
  show ?thesis
  proof (cases "q = of_int m")
    case True then show ?thesis by (simp add: rhe_of_int)
  next
    case False
    then have "q < of_int m" using a by simp
    then have "\<lfloor>q\<rfloor> < m" by (simp add: floor_less_iff)
    then show ?thesis using rhe_cases[of q] by auto
  qed
qed

lemma rhe_ge: "of_int m \<le> q \<Longrightarrow> m \<le> round_half_even q"
proof -
  assume "of_int m \<le> q"
  then have "m \<le> \<lfloor>q\<rfloor>" by (simp add: le_floor_iff)
  then show ?thesis using rhe_cases[of q] by auto
qed

lemma round_double_pos:
  "0 < x \<Longrightarrow> round_double x = (if 2 ^ 1024 \<le> rnd x then PInf else Fin (rnd x))"
  by (simp add: round_double_def rnd_def Let_def)

lemma rnd_nonneg: "0 \<le> rnd x"
proof -
  have "0 \<le> \<bar>x\<bar> / 2 powi ulp_exp x" by (simp add: pow2_pos less_imp_le)
  then have "0 \<le> round_half_even (\<bar>x\<bar> / 2 powi ulp_exp x)"
    using rhe_ge[of 0] by simp
  then show ?thesis by (simp add: rnd_def pow2_pos less_imp_le)
qed

lemma ulp_exp_mono: "0 < p \<Longrightarrow> p \<le> d \<Longrightarrow> ulp_exp p \<le> ulp_exp d"
  using ilog2_mono[of p d] by (simp add: ulp_exp_def)

text \<open>Rounding never crosses a representable number.\<close>

lemma rnd_le_repr:
  assumes p: "0 < p" "p \<le> d" and d: "rnd d = d"
  shows "rnd p \<le> d"
proof -
  define ep where "ep = ulp_exp p"
  define ed where "ed = ulp_exp d"
  define M where "M = round_half_even (\<bar>d\<bar> / 2 powi ed)"
  have le: "ep \<le> ed" unfolding ep_def ed_def by (rule ulp_exp_mono[OF p])
  have dM: "d = of_int M * 2 powi ed" using d by (simp add: rnd_def M_def ed_def)
  have split: "(2::real) powi ed = 2 ^ nat (ed - ep) * 2 powi ep"
  proof -
    have "(2::real) powi ed = 2 powi ((ed - ep) + ep)" by simp
    also have "\<dots> = 2 powi (ed - ep) * 2 powi ep" by (rule power_int_add) simp
    also have "2 powi (ed - ep) = (2::real) ^ nat (ed - ep)"
      using le by (simp add: power_int_nonneg_exp)
    finally show ?thesis .
  qed
  have "d / 2 powi ep = of_int M * 2 ^ nat (ed - ep)"
    using pow2_pos[of ep] by (simp add: dM split)
  also have "\<dots> = of_int (M * 2 ^ nat (ed - ep))" by simp
  finally have dq: "d / 2 powi ep = of_int (M * 2 ^ nat (ed - ep))" .
  have "\<bar>p\<bar> / 2 powi ep \<le> d / 2 powi ep"
    using p pow2_pos[of ep] by (simp add: divide_right_mono less_imp_le)
  then have "round_half_even (\<bar>p\<bar> / 2 powi ep) \<le> M * 2 ^ nat (ed - ep)"
    unfolding dq by (rule rhe_le)
  then have "(of_int (round_half_even (\<bar>p\<bar> / 2 powi ep))::real) \<le> of_int (M * 2 ^ nat (ed - ep))"
    by (simp only: of_int_le_iff)
  then have "of_int (round_half_even (\<bar>p\<bar> / 2 powi ep)) * 2 powi ep \<le> d / 2 powi ep * 2 powi ep"
    unfolding dq using pow2_pos[of ep] by (simp add: mult_right_mono less_imp_le)
  then show ?thesis using pow2_pos[of ep] by (simp add: rnd_def ep_def)
qed

lemma round_double_le_repr:
  assumes "0 \<le> p" "p \<le> d" "round_double d = Fin d"
  shows "\<exists>y. round_double p = Fin y \<and> 0 \<le> y \<and> y \<le> d"
proof (cases "p = 0")
  case True
  then show ?thesis using assms by (simp add: round_double_def)
next
  case False
  then have p: "0 < p" "0 < d" using assms by auto
  from assms(3) p(2) have d: "rnd d = d" "rnd d < 2 ^ 1024"
    by (auto simp: round_double_pos split: if_splits)
  have "rnd p \<le> d" by (rule rnd_le_repr[OF p(1) assms(2) d(1)])
  then show ?thesis using d p(1) rnd_nonneg[of p] by (simp add: round_double_pos)
qed

text \<open>In the normal range the relative rounding error is at most \<open>2 powi - 53\<close>.\<close>

lemma rnd_upper:
  assumes "0 < x" "2 powi (- 1022) \<le> x"
  shows "rnd x \<le> x * (1 + 2 powi (- 53))"
proof -
  have n: "- 1022 \<le> ilog2 x" by (rule ilog2_ge[OF assms])
  then have e: "ulp_exp x = ilog2 x - 52" using assms(1) by (simp add: ulp_exp_def)
  have "rnd x \<le> (x / 2 powi ulp_exp x + 1 / 2) * 2 powi ulp_exp x"
    unfolding rnd_def using rhe_upper[of "\<bar>x\<bar> / 2 powi ulp_exp x"] assms(1) pow2_pos[of "ulp_exp x"]
    by (simp add: mult_right_mono less_imp_le)
  also have "\<dots> = x + 2 powi ulp_exp x / 2"
    using pow2_pos[of "ulp_exp x"] by (simp add: field_simps)
  also have "(2::real) powi ulp_exp x / 2 = 2 powi ilog2 x * 2 powi (- 53)"
  proof -
    have "(2::real) powi ulp_exp x = 2 powi (ilog2 x + (- 52))" by (simp add: e)
    also have "\<dots> = 2 powi ilog2 x * 2 powi (- 52)" by (rule power_int_add) simp
    finally show ?thesis by simp
  qed
  also have "x + 2 powi ilog2 x * 2 powi (- 53) \<le> x + x * 2 powi (- 53)"
    using ilog2_bounds(1)[OF assms(1)] by (simp add: mult_right_mono)
  finally show ?thesis by (simp add: algebra_simps)
qed

lemma round_double_of_nat:
  assumes "n < 2 ^ 53"
  shows "round_double (of_nat n) = Fin (of_nat n)"
proof (cases "n = 0")
  case True then show ?thesis by (simp add: round_double_def)
next
  case False
  let ?x = "of_nat n :: real"
  have x: "0 < ?x" using False by simp
  have "?x < 2 ^ 53" using assms by (metis of_nat_less_iff of_nat_numeral of_nat_power)
  then have x53: "?x < 2 powi 53" by simp
  have "ilog2 ?x < 53" by (rule ilog2_le[OF x x53])
  then have e: "ulp_exp ?x \<le> 0" using x by (simp add: ulp_exp_def)
  define k where "k = nat (- ulp_exp ?x)"
  have pk: "(2::real) powi ulp_exp ?x = 1 / 2 ^ k"
    using e by (simp add: k_def power_int_def field_simps)
  have "\<bar>?x\<bar> / 2 powi ulp_exp ?x = of_int (int n * 2 ^ k)"
    by (simp add: pk)
  then have "round_half_even (\<bar>?x\<bar> / 2 powi ulp_exp ?x) = int n * 2 ^ k"
    by (simp only: rhe_of_int)
  then have r: "rnd ?x = ?x" by (simp add: rnd_def pk)
  have "?x < 2 ^ 1024" using \<open>?x < 2 ^ 53\<close> by (rule less_trans) simp
  then show ?thesis using x r by (simp add: round_double_pos)
qed

lemma float_of_nat_exact: "n < 2 ^ 53 \<Longrightarrow> float_of_nat n = Inr (Fin (of_nat n))"
  by (simp add: float_of_nat_def round_double_of_nat)

section \<open>Properties of the Subtitle Pacer\<close>

lemma subtitle_loop_eq:
  "i + length gs < 2 ^ 53 \<Longrightarrow>
   subtitle_loop sd d i gs = Inr (map (\<lambda>j. mk_part sd d (i + j) (gs ! j)) [0..<length gs])"
proof (induction gs arbitrary: i)
  case Nil
  then show ?case by simp
next
  case (Cons g gs)
  have i: "i < 2 ^ 53" "i + 1 < 2 ^ 53" "(i + 1) + length gs < 2 ^ 53"
    using Cons.prems by simp_all
  have shift: "map (\<lambda>j. mk_part sd d (i + j) ((g # gs) ! j)) [0..<length (g # gs)] =
        mk_part sd d i g # map (\<lambda>j. mk_part sd d (i + 1 + j) (gs ! j)) [0..<length gs]"
  proof -
    have "[0..<length (g # gs)] = 0 # map Suc [0..<length gs]"
      by (simp add: upt_conv_Cons map_Suc_upt del: upt_Suc)
    then show ?thesis by (simp add: comp_def del: upt_Suc)
  qed
  show ?case
    unfolding shift
    using Cons.IH[OF i(3)] float_of_nat_exact[OF i(1)] float_of_nat_exact[OF i(2)]
    by (simp add: mk_part_def)
qed

lemma groups_nonempty: "ws \<noteq> [] \<Longrightarrow> word_groups_of ws \<noteq> []"
  by (induction ws rule: induct_list012) (simp_all add: word_groups_of_simps)

lemma generate_eq:
  assumes "str_split txt \<noteq> []" "length (str_split txt) < 2 ^ 53"
    and "float_div d (Fin (of_nat (length (word_groups_of (str_split txt))))) = Inr sd"
  shows "generate_subtitle_timestamps txt d =
    ([], Inr (map (\<lambda>j. mk_part sd d j (word_groups_of (str_split txt) ! j))
                [0..<length (word_groups_of (str_split txt))]))"
proof -
  let ?gs = "word_groups_of (str_split txt)"
  have len: "length ?gs < 2 ^ 53"
    using assms(2) by (simp add: length_word_groups_of)
  have "subtitle_loop sd d 0 ?gs = Inr (map (\<lambda>j. mk_part sd d (0 + j) (?gs ! j)) [0..<length ?gs])"
    by (rule subtitle_loop_eq) (use len in simp)
  then show ?thesis
    using assms(1,3) float_of_nat_exact[OF len]
    by (simp add: generate_subtitle_timestamps_def Let_def)
qed

lemma float_div_total: "b \<noteq> 0 \<Longrightarrow> \<exists>sd. float_div d (Fin b) = Inr sd"
  by (cases d) simp_all

lemma py_min_round_le:
  assumes "0 \<le> p" "0 \<le> x"
  shows "\<exists>z. py_min (round_double p) (Fin x) = Fin z \<and> z \<le> x"
proof (cases "p = 0")
  case True
  then show ?thesis using assms(2) by (simp add: round_double_def py_min_def)
next
  case False
  then have "0 < p" using assms(1) by simp
  then show ?thesis by (auto simp: round_double_pos py_min_def)
qed

lemma map_over_nth: "map (\<lambda>j. f (xs ! j)) [0..<length xs] = map f xs"
  by (rule nth_equalityI) simp_all

lemma group_size_arith:
  "i < (n + 1) div 2 \<Longrightarrow> min 2 (n - 2 * i) = (if i + 1 = (n + 1) div 2 \<and> odd n then 1 else (2::nat))"
  by (auto simp: min_def; presburger)

lemma length_group:
  assumes "i < length (word_groups_of ws)"
  shows "length (word_groups_of ws ! i) =
     (if i + 1 = length (word_groups_of ws) \<and> odd (length ws) then 1 else 2)"
proof -
  have "length (word_groups_of ws ! i) = min 2 (length ws - 2 * i)"
    using assms by (simp add: word_groups_of_nth min_def)
  moreover have "i < (length ws + 1) div 2" using assms by (simp add: length_word_groups_of)
  ultimately show ?thesis
    using group_size_arith[of i "length ws"] by (simp add: length_word_groups_of)
qed

lemma text_mk_part: "text' (mk_part sd d j g) = str_join (py_str '' '') g"
  by (simp add: mk_part_def)

text \<open>
  C8. For every text with at least one word (and fewer than \<open>2 ^ 53\<close> words, so that every
  index converts to a float exactly), \<^verbatim>\<open>generate_subtitle_timestamps\<close> called with
  \<^verbatim>\<open>audio_duration == 0\<close> returns normally, with no exception and nothing printed, one part
  per word group, and every part has \<^verbatim>\<open>start_time == end_time == 0\<close>.
\<close>

theorem pace_zero_duration:
  assumes "str_split txt \<noteq> []" and "length (str_split txt) < 2 ^ 53"
  shows "\<exists>segs. generate_subtitle_timestamps txt (Fin 0) = ([], Inr segs) \<and>
           length segs = (length (str_split txt) + 1) div 2 \<and>
           (\<forall>s \<in> set segs. start_time s = Fin 0 \<and> end_time s = Fin 0)"
proof -
  let ?gs = "word_groups_of (str_split txt)"
  have k: "length ?gs \<noteq> 0" using groups_nonempty[OF assms(1)] by simp
  have div: "float_div (Fin 0) (Fin (of_nat (length ?gs))) = Inr (Fin 0)"
    using k by (simp add: round_double_def)
  have part: "start_time (mk_part (Fin 0) (Fin 0) j g) = Fin 0 \<and> end_time (mk_part (Fin 0) (Fin 0) j g) = Fin 0" for j g
    by (simp add: mk_part_def round_double_def py_min_def)
  show ?thesis
    unfolding generate_eq[OF assms div]
    by (auto simp: length_word_groups_of part)
qed

lemma pace_groups_general:
  assumes "str_split txt \<noteq> []" and "length (str_split txt) < 2 ^ 53"
  shows "\<exists>segs. generate_subtitle_timestamps txt d = ([], Inr segs) \<and>
           map text' segs = map (str_join (py_str '' '')) (word_groups_of (str_split txt)) \<and>
           concat (word_groups_of (str_split txt)) = str_split txt \<and>
           (\<forall>i < length (word_groups_of (str_split txt)).
              length (word_groups_of (str_split txt) ! i) =
                (if i + 1 = length (word_groups_of (str_split txt)) \<and> odd (length (str_split txt))
                 then 1 else 2))"
proof -
  let ?gs = "word_groups_of (str_split txt)"
  have k: "real (length ?gs) \<noteq> 0" using groups_nonempty[OF assms(1)] by simp
  obtain sd where div: "float_div d (Fin (of_nat (length ?gs))) = Inr sd"
    using float_div_total[OF k] by blast
  have "map text' (map (\<lambda>j. mk_part sd d j (?gs ! j)) [0..<length ?gs]) = map (str_join (py_str '' '')) ?gs"
    by (simp add: comp_def text_mk_part map_over_nth)
  then show ?thesis
    unfolding generate_eq[OF assms div]
    using length_group[of _ "str_split txt"] by (simp add: concat_word_groups_of)
qed

text \<open>Lower bounds in the normal range, and the last end time.\<close>

lemma normal_ulp_exp:
  assumes "0 < x" "2 powi (- 1022) \<le> x"
  shows "ulp_exp x = ilog2 x - 52"
  using ilog2_ge[OF assms] assms(1) by (simp add: ulp_exp_def)

lemma rnd_lower:
  assumes "0 < x" "2 powi (- 1022) \<le> x"
  shows "x * (1 - 2 powi (- 53)) \<le> rnd x"
proof -
  have e: "ulp_exp x = ilog2 x - 52" by (rule normal_ulp_exp[OF assms])
  have half: "(2::real) powi ulp_exp x / 2 = 2 powi ilog2 x * 2 powi (- 53)"
  proof -
    have "(2::real) powi ulp_exp x = 2 powi (ilog2 x + (- 52))" by (simp add: e)
    also have "\<dots> = 2 powi ilog2 x * 2 powi (- 52)" by (rule power_int_add) simp
    finally show ?thesis by simp
  qed
  have "x - x * 2 powi (- 53) \<le> x - 2 powi ilog2 x * 2 powi (- 53)"
    using ilog2_bounds(1)[OF assms(1)] by (simp add: mult_right_mono)
  also have "\<dots> = (x / 2 powi ulp_exp x - 1 / 2) * 2 powi ulp_exp x"
    using pow2_pos[of "ulp_exp x"] half by (simp add: field_simps)
  also have "\<dots> \<le> rnd x"
    unfolding rnd_def using rhe_lower[of "\<bar>x\<bar> / 2 powi ulp_exp x"] assms(1) pow2_pos[of "ulp_exp x"]
    by (simp add: mult_right_mono less_imp_le)
  finally show ?thesis by (simp add: algebra_simps)
qed

lemma rnd_ge_binade:
  assumes "0 < x" "2 powi (- 1022) \<le> x"
  shows "2 powi ilog2 x \<le> rnd x"
proof -
  have e: "ulp_exp x = ilog2 x - 52" by (rule normal_ulp_exp[OF assms])
  have split: "(2::real) powi ilog2 x = 2 ^ 52 * 2 powi ulp_exp x"
  proof -
    have "(2::real) powi ilog2 x = 2 powi (52 + ulp_exp x)" by (simp add: e)
    also have "\<dots> = 2 powi 52 * 2 powi ulp_exp x" by (rule power_int_add) simp
    finally show ?thesis by simp
  qed
  have "of_int (2 ^ 52) \<le> \<bar>x\<bar> / 2 powi ulp_exp x"
    using ilog2_bounds(1)[OF assms(1)] assms(1) pow2_pos[of "ulp_exp x"]
    by (simp add: split field_simps)
  then have "2 ^ 52 \<le> round_half_even (\<bar>x\<bar> / 2 powi ulp_exp x)" by (rule rhe_ge)
  then have "(of_int (2 ^ 52)::real) \<le> of_int (round_half_even (\<bar>x\<bar> / 2 powi ulp_exp x))"
    by (simp only: of_int_le_iff)
  then have "of_int (2 ^ 52) * 2 powi ulp_exp x \<le> rnd x"
    unfolding rnd_def using pow2_pos[of "ulp_exp x"] by (intro mult_right_mono) simp_all
  then show ?thesis by (simp add: split)
qed

lemma rnd_ge_least_normal:
  assumes "0 < x" "2 powi (- 1022) \<le> x"
  shows "2 powi (- 1022) \<le> rnd x"
proof -
  have "(2::real) powi (- 1022) \<le> 2 powi ilog2 x"
    using ilog2_ge[OF assms] by (intro power_int_increasing) simp_all
  then show ?thesis using rnd_ge_binade[OF assms] by linarith
qed

lemma py_min_round_between:
  assumes "0 < p" "l \<le> rnd p" "l \<le> x"
  shows "\<exists>z. py_min (round_double p) (Fin x) = Fin z \<and> l \<le> z \<and> z \<le> x"
  using assms by (auto simp: round_double_pos py_min_def)

lemma last_end_bounds:
  assumes x: "0 < x" and k: "0 < k" and normal: "2 powi (- 1022) * real k \<le> x"
    and s: "s = rnd (x / real k)"
  shows "\<exists>z. py_min (round_double (real k * s)) (Fin x) = Fin z \<and>
           x * (1 - 2 powi (- 52)) \<le> z \<and> z \<le> x"
proof -
  define c :: real where "c = 2 powi (- 53)"
  have c: "0 \<le> c" "c \<le> 1" "1 - 2 powi (- 52) \<le> (1 - c) * (1 - c)"
    by (simp_all add: c_def)
  have kpos: "0 < real k" "1 \<le> real k" using k by simp_all
  have q: "0 < x / real k" "2 powi (- 1022) \<le> x / real k"
    using x kpos(1) normal by (simp_all add: field_simps)
  have s_lo: "x / real k * (1 - c) \<le> s" unfolding s c_def by (rule rnd_lower[OF q])
  have s_norm: "2 powi (- 1022) \<le> s" unfolding s by (rule rnd_ge_least_normal[OF q])
  have s_pos: "0 < s" using s_norm pow2_pos[of "- 1022"] by linarith
  let ?p = "real k * s"
  have p_pos: "0 < ?p" using kpos(1) s_pos by simp
  have "s \<le> ?p" using kpos(2) s_pos by (simp add: mult_le_cancel_right1)
  then have p_norm: "2 powi (- 1022) \<le> ?p" using s_norm by linarith
  have "x * (1 - c) = real k * (x / real k * (1 - c))" using kpos(1) by simp
  also have "\<dots> \<le> ?p" using s_lo kpos(1) by (intro mult_left_mono) simp_all
  finally have p_lo: "x * (1 - c) \<le> ?p" .
  have "x * (1 - 2 powi (- 52)) \<le> x * ((1 - c) * (1 - c))"
    using c(3) x by (intro mult_left_mono) simp_all
  also have "\<dots> = (x * (1 - c)) * (1 - c)" by (simp only: mult.assoc)
  also have "\<dots> \<le> ?p * (1 - c)" using p_lo c(2) by (intro mult_right_mono) simp_all
  also have "\<dots> \<le> rnd ?p" unfolding c_def by (rule rnd_lower[OF p_pos p_norm])
  finally have lo: "x * (1 - 2 powi (- 52)) \<le> rnd ?p" .
  have "x * (1 - 2 powi (- 52)) \<le> x" using x by simp
  then show ?thesis using py_min_round_between[OF p_pos lo] by blast
qed

text \<open>The slot length and the products that stay below the duration.\<close>

lemma segment_duration_bounds:
  assumes x: "0 < x" "round_double x = Fin x"
    and k: "0 < k" and normal: "2 powi (- 1022) * real k \<le> x"
  shows "\<exists>s. round_double (x / real k) = Fin s \<and> s = rnd (x / real k) \<and> 0 \<le> s \<and>
           s \<le> x / real k * (1 + 2 powi (- 53))"
proof -
  have q: "0 < x / real k" using x(1) k by simp
  have k1: "1 \<le> real k" using k by simp
  have qx: "x / real k \<le> x" using x(1) k1 by (simp add: field_simps mult_left_mono)
  have n: "2 powi (- 1022) \<le> x / real k" using normal k by (simp add: field_simps)
  obtain s where s: "round_double (x / real k) = Fin s" "0 \<le> s"
    using round_double_le_repr[OF less_imp_le[OF q] qx x(2)] by blast
  have r: "s = rnd (x / real k)" using s(1) q by (simp add: round_double_pos split: if_splits)
  then have "s \<le> x / real k * (1 + 2 powi (- 53))" using rnd_upper[OF q n] by simp
  then show ?thesis using s r by blast
qed

lemma product_below:
  assumes x: "0 < x" and k: "k \<le> 2 ^ 53" and j: "j < k"
    and s: "0 \<le> s" "s \<le> x / real k * (1 + 2 powi (- 53))"
  shows "real j * s \<le> x"
proof -
  have kpos: "0 < real k" using j by simp
  have j1: "real j \<le> real k - 1" using j by (simp add: of_nat_diff Suc_leI le_diff_conv2)
  have "real k \<le> 2 ^ 53" using k by (metis of_nat_le_iff of_nat_numeral of_nat_power)
  then have frac: "(real k - 1) * (1 + 2 powi (- 53)) \<le> real k" by (simp add: field_simps)
  have "real j * s \<le> (real k - 1) * (x / real k * (1 + 2 powi (- 53)))"
    using j1 s by (intro mult_mono) simp_all
  also have "\<dots> = x / real k * ((real k - 1) * (1 + 2 powi (- 53)))" by (simp only: ac_simps)
  also have "\<dots> \<le> x / real k * real k"
    using frac x kpos by (intro mult_left_mono) simp_all
  also have "\<dots> = x" using kpos by simp
  finally show ?thesis .
qed

text \<open>
  C1, as amended. For every text of \<open>n \<ge> 1\<close> words (fewer than \<open>2 ^ 53\<close>) and every finite
  float \<open>audio_duration = x > 0\<close> whose slot \<open>x / \<lceil>n / 2\<rceil>\<close> is not below the least normal
  float \<open>2 powi - 1022\<close>, the function returns exactly \<open>\<lceil>n / 2\<rceil>\<close> parts; the first starts
  at 0; each part's \<^verbatim>\<open>end_time\<close> is the next part's \<^verbatim>\<open>start_time\<close>, a finite float in
  \<open>[0, x]\<close>; and the last part's \<^verbatim>\<open>end_time\<close> is a finite float \<open>z\<close> with
  \<open>x * (1 - 2 powi - 52) \<le> z \<le> x\<close>. It need not equal \<open>x\<close>: the counterexample below ends
  one rounding step early.
\<close>

theorem pace_contiguous_within_duration:
  assumes words: "str_split txt \<noteq> []" "length (str_split txt) < 2 ^ 53"
    and x: "0 < x" "round_double x = Fin x"
    and normal: "2 powi (- 1022) * real ((length (str_split txt) + 1) div 2) \<le> x"
  shows "\<exists>segs. generate_subtitle_timestamps txt (Fin x) = ([], Inr segs) \<and>
           length segs = (length (str_split txt) + 1) div 2 \<and>
           start_time (segs ! 0) = Fin 0 \<and>
           (\<forall>i. i + 1 < length segs \<longrightarrow>
              (\<exists>t. end_time (segs ! i) = Fin t \<and> start_time (segs ! (i + 1)) = Fin t \<and>
                   0 \<le> t \<and> t \<le> x)) \<and>
           (\<exists>z. end_time (last segs) = Fin z \<and> x * (1 - 2 powi (- 52)) \<le> z \<and> z \<le> x)"
proof -
  let ?gs = "word_groups_of (str_split txt)"
  define k where "k = length ?gs"
  have k_eq: "k = (length (str_split txt) + 1) div 2" by (simp add: k_def length_word_groups_of)
  have kpos: "0 < k" using groups_nonempty[OF words(1)] by (simp add: k_def)
  have k53: "k \<le> 2 ^ 53" using words(2) by (simp add: k_eq)
  obtain s where s: "round_double (x / real k) = Fin s" "0 \<le> s"
      "s \<le> x / real k * (1 + 2 powi (- 53))" and s_rnd: "s = rnd (x / real k)"
    using segment_duration_bounds[OF x kpos] normal k_eq by auto
  have div: "float_div (Fin x) (Fin (of_nat (length ?gs))) = Inr (Fin s)"
    using kpos s(1) by (simp add: k_def)
  define segs where "segs = map (\<lambda>j. mk_part (Fin s) (Fin x) j (?gs ! j)) [0..<k]"
  have gen: "generate_subtitle_timestamps txt (Fin x) = ([], Inr segs)"
    unfolding segs_def k_def by (rule generate_eq[OF words div])
  have len: "length segs = k" by (simp add: segs_def)
  have nth: "segs ! j = mk_part (Fin s) (Fin x) j (?gs ! j)" if "j < k" for j
    using that by (simp add: segs_def)
  have start0: "start_time (segs ! 0) = Fin 0"
    using kpos by (simp add: nth mk_part_def round_double_def)
  have below: "\<exists>t. round_double (real j * s) = Fin t \<and> 0 \<le> t \<and> t \<le> x" if "j < k" for j
  proof -
    have "real j * s \<le> x" by (rule product_below[OF x(1) k53 that s(2,3)])
    moreover have "0 \<le> real j * s" using s(2) by simp
    ultimately show ?thesis using round_double_le_repr[OF _ _ x(2)] by blast
  qed
  have contiguous: "\<exists>t. end_time (segs ! i) = Fin t \<and> start_time (segs ! (i + 1)) = Fin t \<and>
      0 \<le> t \<and> t \<le> x" if "i + 1 < length segs" for i
  proof -
    have i: "i < k" "i + 1 < k" using that len by simp_all
    obtain t where t: "round_double (real (i + 1) * s) = Fin t" "0 \<le> t" "t \<le> x"
      using below[OF i(2)] by blast
    have "end_time (segs ! i) = Fin t"
      using t by (simp add: nth[OF i(1)] mk_part_def py_min_def)
    moreover have "start_time (segs ! (i + 1)) = Fin t"
      using t nth[OF i(2)] by (simp add: mk_part_def)
    ultimately show ?thesis using t by blast
  qed
  have last_seg: "\<exists>z. end_time (last segs) = Fin z \<and> x * (1 - 2 powi (- 52)) \<le> z \<and> z \<le> x"
  proof -
    have ne: "segs \<noteq> []" using len kpos by auto
    have "last segs = segs ! (k - 1)" using len by (simp add: last_conv_nth[OF ne])
    also have "\<dots> = mk_part (Fin s) (Fin x) (k - 1) (?gs ! (k - 1))"
      using kpos by (simp add: nth)
    finally have "end_time (last segs) = py_min (round_double (real k * s)) (Fin x)"
      using kpos by (simp add: mk_part_def)
    moreover have "2 powi (- 1022) * real k \<le> x" using normal k_eq by simp
    ultimately show ?thesis using last_end_bounds[OF x(1) kpos _ s_rnd] by simp
  qed
  show ?thesis using gen len k_eq start0 contiguous last_seg by blast
qed

lemmas eval_round = round_double_def ulp_exp_def ilog2_def round_half_even_def compute_bitlen Let_def
  float_of_nat_def

lemma split_example:
  "str_split (py_str ''this is a test message'') =
     [py_str ''this'', py_str ''is'', py_str ''a'', py_str ''test'', py_str ''message'']"
  by (simp add: str_split_def py_str_def isspace_def)

lemma split_alphabet:
  "str_split (py_str ''a b c d e f g h i j k l m n o p q r s t u'') =
     [[97], [98], [99], [100], [101], [102], [103], [104], [105], [106], [107], [108], [109],
      [110], [111], [112], [113], [114], [115], [116], [117]]"
  by (simp add: str_split_def py_str_def isspace_def)

lemma slot_15_11: "round_double (15 / 11) = Fin (6141272219141585 / 4503599627370496)"
  by (simp add: eval_round)

lemma last_15_11:
  "round_double (67553994410557435 / 4503599627370496) = Fin (8444249301319679 / 562949953421312)"
  by (simp add: eval_round)

text \<open>
  A counterexample to C1 as the specification states it: 21 words and \<^verbatim>\<open>audio_duration = 15.0\<close> give 11 parts, and the last
  \<^verbatim>\<open>end_time\<close> is \<open>min(11 * (15 / 11), 15) = 15 - 2 powi - 49\<close>, printed by Python as
  \<^verbatim>\<open>14.999999999999998\<close>.
\<close>

theorem pace_last_end_counterexample:
  "\<not> isl (snd (generate_subtitle_timestamps (py_str ''a b c d e f g h i j k l m n o p q r s t u'') (Fin 15))) \<and>
   length (projr (snd (generate_subtitle_timestamps (py_str ''a b c d e f g h i j k l m n o p q r s t u'') (Fin 15)))) = 11 \<and>
   end_time (last (projr (snd (generate_subtitle_timestamps (py_str ''a b c d e f g h i j k l m n o p q r s t u'') (Fin 15)))))
     = Fin (8444249301319679 / 562949953421312) \<and>
   \<not> float_eq (Fin (8444249301319679 / 562949953421312)) (Fin 15)"
proof -
  let ?txt = "py_str ''a b c d e f g h i j k l m n o p q r s t u''"
  let ?gs = "word_groups_of (str_split ?txt)"
  let ?sd = "Fin (6141272219141585 / 4503599627370496)"
  have len: "length ?gs = 11" by (simp add: split_alphabet length_word_groups_of)
  have ne: "str_split ?txt \<noteq> []" "length (str_split ?txt) < 2 ^ 53"
    by (simp_all add: split_alphabet)
  have div: "float_div (Fin 15) (Fin (of_nat (length ?gs))) = Inr ?sd"
    by (simp add: len slot_15_11)
  have upt: "[0..<11] = [0, 1, 2, 3, 4, 5, 6, 7, 8, 9, 10::nat]"
    by (simp add: upt_rec)
  have last_end: "end_time (mk_part ?sd (Fin 15) 10 g) = Fin (8444249301319679 / 562949953421312)" for g
    by (simp add: mk_part_def last_15_11 py_min_def)
  show ?thesis
    unfolding generate_eq[OF ne div] len
    by (simp add: upt last_end float_eq_def)
qed

lemma slot_10_3: "round_double (10 / 3) = Fin (7505999378950827 / 2251799813685248)"
  by (simp add: eval_round)

lemma double_20_3: "round_double (20 / 3) = Fin (7505999378950827 / 1125899906842624)"
  by (simp add: eval_round)

lemma parts_10_3:
  "mk_part (Fin (7505999378950827 / 2251799813685248)) (Fin 10) 0 g =
     \<lparr>text' = str_join (py_str '' '') g, start_time = Fin 0,
      end_time = Fin (7505999378950827 / 2251799813685248)\<rparr>"
  "mk_part (Fin (7505999378950827 / 2251799813685248)) (Fin 10) 1 g =
     \<lparr>text' = str_join (py_str '' '') g, start_time = Fin (7505999378950827 / 2251799813685248),
      end_time = Fin (7505999378950827 / 1125899906842624)\<rparr>"
  "mk_part (Fin (7505999378950827 / 2251799813685248)) (Fin 10) 2 g =
     \<lparr>text' = str_join (py_str '' '') g, start_time = Fin (7505999378950827 / 1125899906842624),
      end_time = Fin 10\<rparr>"
  by (simp_all add: mk_part_def eval_round py_min_def)

lemma parts_10_3_Suc:
  "mk_part (Fin (7505999378950827 / 2251799813685248)) (Fin 10) (Suc 0) g =
     \<lparr>text' = str_join (py_str '' '') g, start_time = Fin (7505999378950827 / 2251799813685248),
      end_time = Fin (7505999378950827 / 1125899906842624)\<rparr>"
  "mk_part (Fin (7505999378950827 / 2251799813685248)) (Fin 10) (Suc (Suc 0)) g =
     \<lparr>text' = str_join (py_str '' '') g, start_time = Fin (7505999378950827 / 1125899906842624),
      end_time = Fin 10\<rparr>"
  using parts_10_3(2,3)[of g] by (simp_all add: numeral_2_eq_2)

lemma pace_example:
  "generate_subtitle_timestamps (py_str ''this is a test message'') (Fin 10) =
     ([], Inr [\<lparr>text' = py_str ''this is'', start_time = Fin 0,
                 end_time = Fin (7505999378950827 / 2251799813685248)\<rparr>,
               \<lparr>text' = py_str ''a test'', start_time = Fin (7505999378950827 / 2251799813685248),
                 end_time = Fin (7505999378950827 / 1125899906842624)\<rparr>,
               \<lparr>text' = py_str ''message'', start_time = Fin (7505999378950827 / 1125899906842624),
                 end_time = Fin 10\<rparr>])"
proof -
  let ?txt = "py_str ''this is a test message''"
  let ?gs = "word_groups_of (str_split ?txt)"
  have gs: "?gs = [[py_str ''this'', py_str ''is''], [py_str ''a'', py_str ''test''], [py_str ''message'']]"
    by (simp add: split_example word_groups_of_simps)
  have ne: "str_split ?txt \<noteq> []" "length (str_split ?txt) < 2 ^ 53"
    by (simp_all add: split_example)
  have div: "float_div (Fin 10) (Fin (of_nat (length ?gs))) = Inr (Fin (7505999378950827 / 2251799813685248))"
    by (simp add: gs slot_10_3)
  have upt: "[0..<3] = [0, 1, 2::nat]" by (simp add: upt_rec)
  show ?thesis
    unfolding generate_eq[OF ne div] gs
    by (simp add: upt parts_10_3(1) parts_10_3_Suc py_str_def)
qed

lemma split_example_text:
  "str_split example_text =
     [py_str ''this'', py_str ''is'', py_str ''a'', py_str ''test'', py_str ''message'']"
  unfolding example_text_def by (rule split_example)

lemma round_double_10: "round_double 10 = Fin 10"
  by (simp add: eval_round)

theorem pace_contiguous_within_duration_witness:
  "str_split example_text \<noteq> [] \<and> length (str_split example_text) < 2 ^ 53 \<and> (0::real) < 10 \<and>
   round_double 10 = Fin 10 \<and>
   2 powi (- 1022) * real ((length (str_split example_text) + 1) div 2) \<le> 10 \<and>
   (\<exists>segs. generate_subtitle_timestamps example_text (Fin 10) = ([], Inr segs) \<and>
      length segs = (length (str_split example_text) + 1) div 2 \<and>
      start_time (segs ! 0) = Fin 0 \<and>
      (\<forall>i. i + 1 < length segs \<longrightarrow>
         (\<exists>t. end_time (segs ! i) = Fin t \<and> start_time (segs ! (i + 1)) = Fin t \<and>
              0 \<le> t \<and> t \<le> 10)) \<and>
      (\<exists>z. end_time (last segs) = Fin z \<and> 10 * (1 - 2 powi (- 52)) \<le> z \<and> z \<le> 10))"
proof -
  have h1: "str_split example_text \<noteq> []" by (simp add: split_example_text)
  have h2: "length (str_split example_text) < 2 ^ 53" by (simp add: split_example_text)
  have h3: "(0::real) < 10" by simp
  have h5: "2 powi (- 1022) * real ((length (str_split example_text) + 1) div 2) \<le> 10"
    by (simp add: split_example_text)
  show ?thesis
    using pace_contiguous_within_duration[OF h1 h2 h3 round_double_10 h5] h1 h2 h5 round_double_10 by simp
qed

theorem pace_zero_duration_witness:
  "str_split example_text \<noteq> [] \<and> length (str_split example_text) < 2 ^ 53 \<and>
   (\<exists>segs. generate_subtitle_timestamps example_text (Fin 0) = ([], Inr segs) \<and>
      length segs = (length (str_split example_text) + 1) div 2 \<and>
      (\<forall>s \<in> set segs. start_time s = Fin 0 \<and> end_time s = Fin 0))"
proof -
  have h1: "str_split example_text \<noteq> []" by (simp add: split_example_text)
  have h2: "length (str_split example_text) < 2 ^ 53" by (simp add: split_example_text)
  show ?thesis using pace_zero_duration[OF h1 h2] h1 h2 by simp
qed

text \<open>
  C3, as amended. For a text with no whitespace-delimited token (the empty string, or
  whitespace only) the function prints \<^verbatim>\<open>Error: Input text is empty.\<close> and returns the
  empty list as a normal result: it raises no exception.
\<close>

theorem pace_empty_text: "str_split txt = [] \<Longrightarrow>
   generate_subtitle_timestamps txt d = ([py_str ''Error: Input text is empty.''], Inr [])"
  by (simp add: generate_subtitle_timestamps_def)

theorem pace_empty_text_witness:
  "str_split (py_str ''  '') = [] \<and>
   generate_subtitle_timestamps (py_str ''  '') (Fin 10) = ([py_str ''Error: Input text is empty.''], Inr [])"
proof -
  have h: "str_split (py_str ''  '') = []" by (simp add: str_split_def py_str_def isspace_def)
  show ?thesis using pace_empty_text[OF h] h by simp
qed

text \<open>
  A counterexample to C3 as the specification states it: on the empty string the result is
  the returned value \<open>[]\<close>, not an exception.
\<close>

theorem pace_empty_text_counterexample:
  "\<not> isl (snd (generate_subtitle_timestamps (py_str '''') (Fin 10))) \<and>
   snd (generate_subtitle_timestamps (py_str '''') (Fin 10)) = Inr []"
  by (simp add: generate_subtitle_timestamps_def str_split_def py_str_def)

text \<open>
  C2. For every text with at least one word (fewer than \<open>2 ^ 53\<close>) and every float
  \<^verbatim>\<open>audio_duration\<close>, the function returns one part per word group, in the order of the
  groups; the groups concatenate to the words in input order; every group has exactly 2
  words, except that the last has 1 when the number of words is odd; and each part's text
  is its group joined by one space. For \<^verbatim>\<open>"this is a test message"\<close> and 10.0 the three
  parts are \<^verbatim>\<open>"this is"\<close>, \<^verbatim>\<open>"a test"\<close>, \<^verbatim>\<open>"message"\<close> over \<open>[0, 10/3]\<close>,
  \<open>[10/3, 20/3]\<close>, \<open>[20/3, 10]\<close>, where \<open>10/3\<close> and \<open>20/3\<close> are the floats nearest to
  these quotients.
\<close>

theorem pace_groups_of_two:
  "(\<forall>txt d. str_split txt \<noteq> [] \<and> length (str_split txt) < 2 ^ 53 \<longrightarrow>
      (\<exists>segs. generate_subtitle_timestamps txt d = ([], Inr segs) \<and>
           map text' segs = map (str_join (py_str '' '')) (word_groups_of (str_split txt)) \<and>
           concat (word_groups_of (str_split txt)) = str_split txt \<and>
           (\<forall>i < length (word_groups_of (str_split txt)).
              length (word_groups_of (str_split txt) ! i) =
                (if i + 1 = length (word_groups_of (str_split txt)) \<and> odd (length (str_split txt))
                 then 1 else 2)))) \<and>
   generate_subtitle_timestamps (py_str ''this is a test message'') (Fin 10) =
     ([], Inr [\<lparr>text' = py_str ''this is'', start_time = Fin 0,
                 end_time = Fin (7505999378950827 / 2251799813685248)\<rparr>,
               \<lparr>text' = py_str ''a test'', start_time = Fin (7505999378950827 / 2251799813685248),
                 end_time = Fin (7505999378950827 / 1125899906842624)\<rparr>,
               \<lparr>text' = py_str ''message'', start_time = Fin (7505999378950827 / 1125899906842624),
                 end_time = Fin 10\<rparr>]) \<and>
   round_double (10 / 3) = Fin (7505999378950827 / 2251799813685248) \<and>
   round_double (20 / 3) = Fin (7505999378950827 / 1125899906842624)"
  using pace_groups_general pace_example slot_10_3 double_20_3 by blast

theorem pace_groups_of_two_witness:
  "str_split (py_str ''one two three'') \<noteq> [] \<and> length (str_split (py_str ''one two three'')) < 2 ^ 53 \<and>
   (\<exists>segs. generate_subtitle_timestamps (py_str ''one two three'') NaN = ([], Inr segs) \<and>
      map text' segs = [py_str ''one two'', py_str ''three''])"
proof -
  have sp: "str_split (py_str ''one two three'') = [py_str ''one'', py_str ''two'', py_str ''three'']"
    by (simp add: str_split_def py_str_def isspace_def)
  have h: "str_split (py_str ''one two three'') \<noteq> [] \<and> length (str_split (py_str ''one two three'')) < 2 ^ 53"
    by (simp add: sp)
  from pace_groups_of_two have "\<exists>segs. generate_subtitle_timestamps (py_str ''one two three'') NaN = ([], Inr segs) \<and>
      map text' segs = map (str_join (py_str '' '')) (word_groups_of (str_split (py_str ''one two three'')))"
    using h by blast
  moreover have "map (str_join (py_str '' '')) (word_groups_of (str_split (py_str ''one two three''))) =
      [py_str ''one two'', py_str ''three'']"
    unfolding sp by (simp add: word_groups_of_simps py_str_def)
  ultimately show ?thesis using h by simp
qed

section \<open>Properties of the Background Selector\<close>

lemma fnmatch_literal:
  "list_all (\<lambda>p. p \<noteq> 42 \<and> p \<noteq> 63) ps \<Longrightarrow> fnmatch ps s \<longleftrightarrow> s = ps"
  by (induction ps arbitrary: s) (auto split: list.splits)

lemma fnmatch_star_literal:
  assumes "list_all (\<lambda>p. p \<noteq> 42 \<and> p \<noteq> 63) ps"
  shows "fnmatch (42 # ps) name \<longleftrightarrow> suffix ps name"
proof -
  have "fnmatch (42 # ps) name \<longleftrightarrow> (\<exists>k \<in> set [0..<length name + 1]. drop k name = ps)"
    by (simp add: list_ex_iff fnmatch_literal[OF assms] del: upt_Suc)
  also have "\<dots> \<longleftrightarrow> (\<exists>k \<le> length name. drop k name = ps)"
    by (simp only: set_upt atLeastLessThan_iff) (auto simp: less_Suc_eq_le)
  also have "\<dots> \<longleftrightarrow> suffix ps name"
  proof
    assume "\<exists>k \<le> length name. drop k name = ps"
    then obtain k where "drop k name = ps" by blast
    then have "name = take k name @ ps" by (metis append_take_drop_id)
    then show "suffix ps name" by (metis suffixI)
  next
    assume "suffix ps name"
    then obtain zs where "name = zs @ ps" by (auto simp: suffix_def)
    then have "length zs \<le> length name \<and> drop (length zs) name = ps" by simp
    then show "\<exists>k \<le> length name. drop k name = ps" by blast
  qed
  finally show ?thesis .
qed

lemma fnmatch_mp4: "fnmatch (py_str ''*.mp4'') name \<longleftrightarrow> suffix (py_str ''.mp4'') name"
proof -
  have "py_str ''*.mp4'' = 42 # py_str ''.mp4''" by (simp add: py_str_def)
  moreover have "list_all (\<lambda>p. p \<noteq> 42 \<and> p \<noteq> 63) (py_str ''.mp4'')" by (simp add: py_str_def)
  ultimately show ?thesis by (simp only: fnmatch_star_literal)
qed

lemma glob_mp4: "glob folder (py_str ''*.mp4'') = filter (suffix (py_str ''.mp4'')) folder"
  unfolding glob_def by (rule filter_cong) (simp_all add: fnmatch_mp4)

text \<open>
  C5, as amended. With a random source that honours its contract (\<open>randbelow n < n\<close>), over
  a non-empty pool, the entries of the folder matching \<^verbatim>\<open>*.mp4\<close>, \<^verbatim>\<open>pick_random_video\<close>
  returns an element of that pool and prints nothing; over the singleton pool
  \<^verbatim>\<open>["a.mp4"]\<close> it returns \<^verbatim>\<open>"a.mp4"\<close>; over an empty pool it prints
  \<^verbatim>\<open>No videos found in background folder!\<close> and ends the program by \<^verbatim>\<open>exit(1)\<close>, that is
  \<^verbatim>\<open>SystemExit\<close> with status 1, the exit every failure of the program takes: there is no
  error type of its own for the empty pool.
\<close>

theorem pick_random_video_member:
  assumes "\<forall>n > 0. randbelow n < n"
  shows "(glob folder (py_str ''*.mp4'') \<noteq> [] \<longrightarrow>
            (\<exists>v. pick_random_video folder randbelow = ([], Inr v) \<and>
                 v \<in> set (glob folder (py_str ''*.mp4'')))) \<and>
         (glob folder (py_str ''*.mp4'') = [] \<longrightarrow>
            pick_random_video folder randbelow =
              ([py_str ''No videos found in background folder!''], Inl (SystemExit 1))) \<and>
         pick_random_video [py_str ''a.mp4''] randbelow = ([], Inr (py_str ''a.mp4''))"
proof -
  have member: "\<exists>v. random_choice randbelow xs = Inr v \<and> v \<in> set xs" if "xs \<noteq> []" for xs :: "str list"
    using that assms by (simp add: random_choice_def list_getitem_def)
  have single: "glob [py_str ''a.mp4''] (py_str ''*.mp4'') = [py_str ''a.mp4'']"
    by (simp add: glob_mp4) (simp add: py_str_def suffix_def)
  have "pick_random_video [py_str ''a.mp4''] randbelow = ([], Inr (py_str ''a.mp4''))"
    using member[of "[py_str ''a.mp4'']"] by (simp add: pick_random_video_def single)
  then show ?thesis using member by (auto simp: pick_random_video_def Let_def)
qed

text \<open>
  C10. The candidate pool is exactly the entries of the folder whose names end in
  \<^verbatim>\<open>.mp4\<close>: whatever the random source, a returned file is an entry of the folder with
  that ending, and a folder none of whose entries ends in \<^verbatim>\<open>.mp4\<close> is treated as an empty
  pool, with the message and \<^verbatim>\<open>exit(1)\<close> of the empty folder.
\<close>

theorem pick_random_video_only_mp4:
  "(\<forall>out v. pick_random_video folder randbelow = (out, Inr v) \<longrightarrow>
       suffix (py_str ''.mp4'') v \<and> v \<in> set folder) \<and>
   ((\<forall>name \<in> set folder. \<not> suffix (py_str ''.mp4'') name) \<longrightarrow>
       pick_random_video folder randbelow =
         ([py_str ''No videos found in background folder!''], Inl (SystemExit 1))) \<and>
   glob folder (py_str ''*.mp4'') = filter (suffix (py_str ''.mp4'')) folder"
proof -
  have "suffix (py_str ''.mp4'') v \<and> v \<in> set folder"
    if "pick_random_video folder randbelow = (out, Inr v)" for out v
  proof -
    from that have "v \<in> set (glob folder (py_str ''*.mp4''))"
      by (auto simp: pick_random_video_def Let_def random_choice_def list_getitem_def split: if_splits)
    then show ?thesis by (simp add: glob_mp4)
  qed
  moreover have "pick_random_video folder randbelow =
         ([py_str ''No videos found in background folder!''], Inl (SystemExit 1))"
    if "\<forall>name \<in> set folder. \<not> suffix (py_str ''.mp4'') name"
  proof -
    from that have "glob folder (py_str ''*.mp4'') = []" by (simp add: glob_mp4 filter_empty_conv)
    then show ?thesis by (simp add: pick_random_video_def)
  qed
  ultimately show ?thesis using glob_mp4 by blast
qed

section \<open>Properties of the Frame Transformer and the Composer\<close>

lemmas eval_frame = frame_transform_def resize_height_def crop_def crop_axis_def int_truediv_def
  int_of_float_def slice_len_def slice_bound_def eval_round

text \<open>
  C4, where the code departs from it. The transformation is to yield 1080 by 1920 for every
  decodable source, also one that is narrower than 1080 after scaling to height 1920, and
  the docstring of the function says it fills the screen. It does not: a 1080 by 2400 source
  (a 20:9 phone recording) scales to 864 by 1920; the crop window \<open>[432 - 540, 432 + 540]\<close>
  starts below zero, and the slice \<^verbatim>\<open>[-108:972]\<close> of 864 columns keeps the last 108. The
  output is 108 by 1920.
\<close>

theorem frame_transform_narrow_source: "frame_transform (1080, 2400) = Inr (108, 1920)"
  by (simp add: eval_frame)

lemma frame_transform_landscape: "frame_transform (1920, 1080) = Inr (1080, 1920)"
  by (simp add: eval_frame)

lemma slice_bound_le: "slice_bound n i \<le> n"
proof (cases "i < 0")
  case True
  then have "nat (max 0 (int n + i)) \<le> n" by linarith
  then show ?thesis using True by (simp add: slice_bound_def)
next
  case False
  then show ?thesis by (simp add: slice_bound_def)
qed

lemma slice_len_le: "slice_len n start stop \<le> n"
  unfolding slice_len_def using slice_bound_le[of n stop] by linarith

lemma crop_axis_le: "crop_axis n center extent = Inr k \<Longrightarrow> k \<le> n"
  by (auto simp: crop_axis_def slice_len_le split: if_splits sum.splits)

text \<open>Cropping never widens: a source that is narrower than 1080 after scaling stays narrower.\<close>

lemma frame_transform_never_widens:
  assumes "resize_height video_size 1920 = Inr (w, h)" and "frame_transform video_size = Inr (ow, oh)"
  shows "ow \<le> w \<and> oh \<le> h"
  using assms
  by (auto simp: frame_transform_def crop_def split: sum.splits dest: crop_axis_le)

text \<open>A source whose scaled width truncates to 0 is refused by the resize.\<close>

lemma frame_transform_zero_width: "frame_transform (1, 3000) = Inl ValueError"
  by (simp add: eval_frame)

lemma resize_height_positive: "resize_height sz height = Inr (w, h) \<Longrightarrow> 0 < w \<and> 0 < h"
  by (auto simp: resize_height_def split: sum.splits if_splits)

text \<open>
  C9. When the text has no word, so that the list of subtitle parts is empty, and the
  frame transformation of the video succeeds (the resize raises on a zero height and on a
  scaled width that truncates to 0), \<^verbatim>\<open>create_video_with_subtitles\<close> still hands a job to
  the encoder: its layers are the base video alone, with no text clip, and its audio is the
  narration.
\<close>

theorem compose_without_subtitles:
  assumes "str_split txt = []" and "frame_transform video_size = Inr sz"
  shows "create_video_with_subtitles audio_file audio_duration video_file video_size output_file txt =
     ([py_str ''Error: Input text is empty.'', py_str ''Output saved: '' @ output_file],
      Inr \<lparr>layers = [VideoLayer \<lparr>video_path = video_file, clip_size = sz, clip_duration = audio_duration\<rparr>],
           audio_path = audio_file, output_path = output_file, codec = py_str ''libx264'', fps = 60\<rparr>)"
  using assms by (simp add: create_video_with_subtitles_def generate_subtitle_timestamps_def)

theorem compose_without_subtitles_witness:
  "str_split (py_str '''') = [] \<and> frame_transform (1920, 1080) = Inr (1080, 1920) \<and>
   create_video_with_subtitles (py_str ''out.mp3'') (Fin 3) (py_str ''bg.mp4'') (1920, 1080)
       (py_str ''out.mp4'') (py_str '''') =
     ([py_str ''Error: Input text is empty.'', py_str ''Output saved: '' @ py_str ''out.mp4''],
      Inr \<lparr>layers = [VideoLayer \<lparr>video_path = py_str ''bg.mp4'', clip_size = (1080, 1920),
                                  clip_duration = Fin 3\<rparr>],
           audio_path = py_str ''out.mp3'', output_path = py_str ''out.mp4'',
           codec = py_str ''libx264'', fps = 60\<rparr>)"
proof -
  have h: "str_split (py_str '''') = []" by (simp add: str_split_def py_str_def)
  show ?thesis using compose_without_subtitles[OF h frame_transform_landscape] h frame_transform_landscape by simp
qed

theorem pick_random_video_member_witness:
  "pick_random_video [py_str ''clip.mov'', py_str ''a.mp4'', py_str ''b.mp4''] (\<lambda>n. n - 1) =
     ([], Inr (py_str ''b.mp4'')) \<and>
   glob [py_str ''clip.mov'', py_str ''a.mp4'', py_str ''b.mp4''] (py_str ''*.mp4'') =
     [py_str ''a.mp4'', py_str ''b.mp4''] \<and>
   pick_random_video [py_str ''clip.mov''] (\<lambda>n. n - 1) =
     ([py_str ''No videos found in background folder!''], Inl (SystemExit 1))"
proof -
  have contract: "\<forall>n > 0. (\<lambda>n. n - 1) n < (n::nat)" by simp
  have g1: "glob [py_str ''clip.mov'', py_str ''a.mp4'', py_str ''b.mp4''] (py_str ''*.mp4'') =
     [py_str ''a.mp4'', py_str ''b.mp4'']"
    unfolding glob_mp4 by (simp add: py_str_def suffix_Cons)
  have g2: "glob [py_str ''clip.mov''] (py_str ''*.mp4'') = []"
    unfolding glob_mp4 by (simp add: py_str_def suffix_Cons)
  have pick: "pick_random_video [py_str ''clip.mov'', py_str ''a.mp4'', py_str ''b.mp4''] (\<lambda>n. n - 1) =
     ([], Inr (py_str ''b.mp4''))"
    by (simp add: pick_random_video_def g1 random_choice_def list_getitem_def)
  show ?thesis
    using pick_random_video_member[OF contract, of "[py_str ''clip.mov'']"] g1 g2 pick by simp
qed

text \<open>
  A counterexample to the last part of C5 as the specification states it: the empty pool
  does not raise a typed \<^verbatim>\<open>NoAssetsError\<close>, it exits the process with status 1.
\<close>

theorem pick_random_video_empty_counterexample:
  "glob [] (py_str ''*.mp4'') = [] \<and>
   snd (pick_random_video [] (\<lambda>n. 0)) = Inl (SystemExit 1) \<and>
   fst (pick_random_video [] (\<lambda>n. 0)) = [py_str ''No videos found in background folder!'']"
  by (simp add: pick_random_video_def glob_def)

theorem pick_random_video_only_mp4_witness:
  "\<not> suffix (py_str ''.mp4'') (py_str ''clip.mov'') \<and> \<not> suffix (py_str ''.mp4'') (py_str ''a.avi'') \<and>
   pick_random_video [py_str ''clip.mov'', py_str ''a.avi''] (\<lambda>n. 0) =
     ([py_str ''No videos found in background folder!''], Inl (SystemExit 1)) \<and>
   pick_random_video [py_str ''clip.mov'', py_str ''b.mp4''] (\<lambda>n. 0) = ([], Inr (py_str ''b.mp4'')) \<and>
   suffix (py_str ''.mp4'') (py_str ''b.mp4'')"
proof -
  have n: "\<not> suffix (py_str ''.mp4'') (py_str ''clip.mov'')" "\<not> suffix (py_str ''.mp4'') (py_str ''a.avi'')"
    by (simp_all add: py_str_def suffix_Cons)
  have pick: "pick_random_video [py_str ''clip.mov'', py_str ''b.mp4''] (\<lambda>n. 0) = ([], Inr (py_str ''b.mp4''))"
    unfolding pick_random_video_def glob_mp4
    by (simp add: py_str_def suffix_Cons random_choice_def list_getitem_def)
  from pick_random_video_only_mp4[of "[py_str ''clip.mov'', py_str ''a.avi'']" "\<lambda>n. 0"] n
  have "pick_random_video [py_str ''clip.mov'', py_str ''a.avi''] (\<lambda>n. 0) =
     ([py_str ''No videos found in background folder!''], Inl (SystemExit 1))" by simp
  moreover from pick_random_video_only_mp4[of "[py_str ''clip.mov'', py_str ''b.mp4'']" "\<lambda>n. 0"] pick
  have "suffix (py_str ''.mp4'') (py_str ''b.mp4'')" by blast
  ultimately show ?thesis using n pick by simp
qed

end
